theory Spec2Isabelle
  imports Main
begin

section \<open>Python values, errors and strings\<close>

text \<open>
  Exceptions of the Python run time that the parser can raise and never catches, and the two
  ways \<open>parse_teal\<close> can stop without a program: the parse error that is printed with its line
  index before \<open>sys.exit(1)\<close>, and an exception that propagates to the caller.
\<close>

datatype py_error = IndexError | KeyError | ValueError | AssertionError | AttributeError

datatype failure = ParseErrorExit nat string | Unhandled py_error

text \<open>
  Source text is taken as ASCII: a \<open>string\<close> is a list of 8-bit characters. \<open>str.strip()\<close>
  removes the white space of \<open>str.isspace\<close>, which in ASCII is 9..13, 28..31 and 32.
\<close>

definition is_space :: "char \<Rightarrow> bool" where
  "is_space c \<longleftrightarrow> (let n = (of_char c :: nat) in (9 \<le> n \<and> n \<le> 13) \<or> (28 \<le> n \<and> n \<le> 32))"

definition strip :: "string \<Rightarrow> string" where
  "strip s = rev (dropWhile is_space (rev (dropWhile is_space s)))"

definition startswith :: "string \<Rightarrow> string \<Rightarrow> bool" where
  "startswith s p \<longleftrightarrow> take (length p) s = p"

definition replace_spaces :: "string \<Rightarrow> string" where
  \<comment> \<open>\<open>s.replace(" ", "")\<close>\<close>
  "replace_spaces s = filter (\<lambda>c. c \<noteq> CHR '' '') s"

subsection \<open>The builtin \<open>int(s, base)\<close>\<close>

text \<open>
  \<open>int(s, base)\<close> for the bases 8, 10 and 16 the parser uses: white space around the literal
  is dropped, one sign is accepted, then the base prefix (\<open>0x\<close>/\<open>0X\<close> for 16, \<open>0o\<close>/\<open>0O\<close>
  for 8, none for 10) with at most one underscore after it, then digits of the base, with single
  underscores allowed between digits. Anything else raises \<open>ValueError\<close>. The white space
  \<open>int\<close> skips in an ASCII string is 9..13 and 32 only: the separators 28..31, which
  \<open>str.strip\<close> removes, make \<open>int\<close> raise. When the base is not a power of two, a literal
  with more digits than the interpreter's limit (4300 unless configured otherwise) raises
  \<open>ValueError\<close> as well.
\<close>

definition is_int_space :: "char \<Rightarrow> bool" where
  "is_int_space c \<longleftrightarrow> (let n = (of_char c :: nat) in (9 \<le> n \<and> n \<le> 13) \<or> n = 32)"

definition int_strip :: "string \<Rightarrow> string" where
  "int_strip s = rev (dropWhile is_int_space (rev (dropWhile is_int_space s)))"

definition int_max_str_digits :: nat where
  "int_max_str_digits = 4300"

definition digit_val :: "char \<Rightarrow> nat option" where
  "digit_val c =
     (let n = (of_char c :: nat) in
      if 48 \<le> n \<and> n \<le> 57 then Some (n - 48)
      else if 97 \<le> n \<and> n \<le> 122 then Some (n - 87)
      else if 65 \<le> n \<and> n \<le> 90 then Some (n - 55)
      else None)"

fun digits_value :: "nat \<Rightarrow> bool \<Rightarrow> nat \<Rightarrow> string \<Rightarrow> nat option" where
  "digits_value b after_us acc [] = (if after_us then None else Some acc)"
| "digits_value b after_us acc (c # cs) =
     (if c = CHR ''_'' then (if after_us then None else digits_value b True acc cs)
      else (case digit_val c of
              None \<Rightarrow> None
            | Some d \<Rightarrow> if d < b then digits_value b False (acc * b + d) cs else None))"

definition has_base_prefix :: "nat \<Rightarrow> string \<Rightarrow> bool" where
  "has_base_prefix b s \<longleftrightarrow>
     (b = 16 \<and> (startswith s ''0x'' \<or> startswith s ''0X'')) \<or>
     (b = 8 \<and> (startswith s ''0o'' \<or> startswith s ''0O''))"

definition split_sign :: "string \<Rightarrow> bool \<times> string" where
  "split_sign s =
     (case s of
        [] \<Rightarrow> (False, s)
      | c # r \<Rightarrow> if c = CHR ''-'' then (True, r) else if c = CHR ''+'' then (False, r) else (False, s))"

definition drop_base_prefix :: "nat \<Rightarrow> string \<Rightarrow> string" where
  "drop_base_prefix b s =
     (if has_base_prefix b s
      then (let w = drop 2 s in if startswith w ''_'' then drop 1 w else w)
      else s)"

definition py_int :: "nat \<Rightarrow> string \<Rightarrow> py_error + int" where
  "py_int b s =
     (let (neg, u) = split_sign (int_strip s);
          v = drop_base_prefix b u
      in case v of
           [] \<Rightarrow> Inl ValueError
         | c # _ \<Rightarrow>
             if c = CHR ''_'' then Inl ValueError
             else (case digits_value b False 0 v of
                     None \<Rightarrow> Inl ValueError
                   | Some n \<Rightarrow>
                       if b \<notin> {2, 4, 8, 16, 32} \<and>
                          int_max_str_digits < length (filter (\<lambda>d. d \<noteq> CHR ''_'') v)
                       then Inl ValueError
                       else Inr (if neg then - int n else int n)))"

section \<open>Transaction fields (\<open>parse_transaction_field.py\<close>)\<close>

text \<open>
  The five array fields carry their index. Every other field class of \<open>transaction_field\<close> is
  nullary and is identified by its class name: \<open>Nullary ''Sender''\<close> is an instance of
  \<open>transaction_field.Sender\<close>.
\<close>

datatype transaction_field =
    Accounts int
  | ApplicationArgs int
  | Applications int
  | Assets int
  | Logs int
  | Nullary string

definition TX_FIELD_NAMES :: "string list" where
  "TX_FIELD_NAMES =
     [''Sender'', ''Fee'', ''FirstValid'', ''FirstValidTime'', ''LastValid'', ''Note'', ''Lease'',
      ''Receiver'', ''Amount'', ''CloseRemainderTo'', ''VotePK'', ''SelectionPK'', ''VoteFirst'',
      ''VoteLast'', ''VoteKeyDilution'', ''Type'', ''TypeEnum'', ''XferAsset'', ''AssetAmount'',
      ''AssetSender'', ''AssetReceiver'', ''AssetCloseTo'', ''GroupIndex'', ''TxID'',
      ''ApplicationID'', ''OnCompletion'', ''NumAppArgs'', ''NumAccounts'', ''NumApplications'',
      ''NumAssets'', ''ApprovalProgram'', ''ClearStateProgram'', ''RekeyTo'', ''ConfigAsset'',
      ''ConfigAssetTotal'', ''ConfigAssetDecimals'', ''ConfigAssetDefaultFrozen'',
      ''ConfigAssetUnitName'', ''ConfigAssetName'', ''ConfigAssetURL'', ''ConfigAssetMetadataHash'',
      ''ConfigAssetManager'', ''ConfigAssetReserve'', ''ConfigAssetFreeze'', ''ConfigAssetClawback'',
      ''FreezeAsset'', ''FreezeAssetAccount'', ''FreezeAssetFrozen'', ''GlobalNumUint'',
      ''GlobalNumByteSlice'', ''LocalNumUint'', ''LocalNumByteSlice'', ''ExtraProgramPages'',
      ''Nonparticipation'', ''NumLogs'', ''CreatedAssetID'', ''CreatedApplicationID'', ''LastLog'',
      ''StateProofPK'']"

definition TX_FIELD_TXT_TO_OBJECT :: "string \<rightharpoonup> transaction_field" where
  \<comment> \<open>every key of the table maps to the class of the same name\<close>
  "TX_FIELD_TXT_TO_OBJECT = map_of (map (\<lambda>n. (n, Nullary n)) TX_FIELD_NAMES)"

definition parse_int :: "string \<Rightarrow> py_error + int" where
  "parse_int x =
     (if startswith x ''0x'' then py_int 16 (drop 2 x)
      else if startswith x ''0'' then py_int 8 x
      else py_int 10 x)"

definition array_field :: "(int \<Rightarrow> transaction_field) \<Rightarrow> string \<Rightarrow> string \<Rightarrow> bool
    \<Rightarrow> py_error + transaction_field" where
  \<comment> \<open>\<open>C(-1 if use_stack else _parse_int(tx_field[len(name + " "):]))\<close>\<close>
  "array_field C name tx_field use_stack =
     (if use_stack then Inr (C (- 1))
      else (case parse_int (drop (length (name @ '' '')) tx_field) of
              Inl e \<Rightarrow> Inl e
            | Inr i \<Rightarrow> Inr (C i)))"

definition parse_transaction_field :: "string \<Rightarrow> bool \<Rightarrow> py_error + transaction_field" where
  "parse_transaction_field tx_field use_stack =
     (if startswith tx_field ''Accounts'' then array_field Accounts ''Accounts'' tx_field use_stack
      else if startswith tx_field ''ApplicationArgs''
        then array_field ApplicationArgs ''ApplicationArgs'' tx_field use_stack
      else if startswith tx_field ''Applications''
        then array_field Applications ''Applications'' tx_field use_stack
      else if startswith tx_field ''Assets'' then array_field Assets ''Assets'' tx_field use_stack
      else if startswith tx_field ''Logs'' then array_field Logs ''Logs'' tx_field use_stack
      else (case TX_FIELD_TXT_TO_OBJECT (replace_spaces tx_field) of
              None \<Rightarrow> Inl KeyError
            | Some f \<Rightarrow> Inr f))"

section \<open>Output of a run (\<open>__main__.py\<close>)\<close>

text \<open>
  \<open>handle_output\<close> either exits with the error, writes the detector results to files, or
  builds the JSON object and prints it (\<open>--json -\<close>) or writes it under the destination
  directory. \<open>to_json\<close> is the method of the detector results, which is not part of the
  sources at hand.
\<close>

record args =
  json :: "string option"
  dest :: string
  all_paths_in_one :: bool

record 'j json_output =
  success :: bool
  error :: "string option"
  result :: "'j list"

datatype ('o, 'j) output_effect =
    ExitError string
  | WriteToFiles "'o list" string bool
  | PrintJson "'j json_output"
  | WriteJson string string "'j json_output"

definition handle_output :: "('o \<Rightarrow> 'j) \<Rightarrow> args \<Rightarrow> 'o list \<Rightarrow> string option
    \<Rightarrow> ('o, 'j) output_effect" where
  "handle_output to_json a detector_results err =
     (case json a of
        None \<Rightarrow>
          (case err of
             Some e \<Rightarrow> ExitError e
           | None \<Rightarrow> WriteToFiles detector_results (dest a) (all_paths_in_one a))
      | Some j \<Rightarrow>
          (let json_results = map to_json detector_results;
               json_output = \<lparr>success = (err \<noteq> None), error = err, result = json_results\<rparr>
           in if j = ''-'' then PrintJson json_output else WriteJson (dest a) j json_output))"

section \<open>Reference definitions for the parsers\<close>

text \<open>
  The positional value of a digit string, written independently of \<open>py_int\<close>: the digit
  characters in order, upper-case letters standing for the same digits as lower-case ones.
\<close>

definition hex_digits :: string where
  "hex_digits = ''0123456789abcdefABCDEF''"

definition digit_of :: "char \<Rightarrow> nat" where
  "digit_of c = (let i = length (takeWhile (\<lambda>d. d \<noteq> c) hex_digits) in if i < 16 then i else i - 6)"

definition is_digit :: "nat \<Rightarrow> char \<Rightarrow> bool" where
  "is_digit b c \<longleftrightarrow> c \<in> set hex_digits \<and> digit_of c < b"

definition numeral_value :: "nat \<Rightarrow> string \<Rightarrow> nat" where
  "numeral_value b ds = foldl (\<lambda>a c. a * b + digit_of c) 0 ds"

text \<open>The five array fields with the names the parser tests for.\<close>

definition ARRAY_FIELDS :: "((int \<Rightarrow> transaction_field) \<times> string) list" where
  "ARRAY_FIELDS = [(Accounts, ''Accounts''), (ApplicationArgs, ''ApplicationArgs''),
     (Applications, ''Applications''), (Assets, ''Assets''), (Logs, ''Logs'')]"

section \<open>Instructions, basic blocks, subroutines and programs\<close>

text \<open>
  The classes \<open>Instruction\<close>, \<open>BasicBlock\<close>, \<open>Subroutine\<close> and \<open>Teal\<close> are used by the
  parser through their attributes. Objects live in two stores: the list of instructions and
  the list of basic blocks, each in creation order. A reference to an instruction or a block
  is its position in its store, so that an in-place update of an object is seen through every
  reference to it.
\<close>

datatype ContractType = STATELESS | STATEFULL | ANY

datatype field_class =
    TransactionField transaction_field
  | AssetHoldingField string
  | AssetParamsField string
  | AppParamsField string
  | AcctParamsField string
  | OtherField string

record field =
  fld_class :: field_class
  fld_version :: int

datatype ins_kind =
    Label string
  | B string
  | BZ string
  | BNZ string
  | Switch "string list"
  | Match "string list"
  | Err
  | Return
  | Callsub string
  | Retsub
  | Pragma int
  | Intcblock "int list"
  | Bytecblock "string list"
  | Txn
  | Method string
  | Other string

text \<open>
  What \<open>parse_line\<close> makes of an instruction line: the class of the instruction with its
  immediates, and the version, mode and field that class reports.
\<close>

record parsed_ins =
  p_kind :: ins_kind
  p_version :: int
  p_mode :: ContractType
  p_field :: "field option"

record instruction =
  kind :: ins_kind
  ins_version :: int
  ins_mode :: ContractType
  ins_field :: "field option"
  ins_line :: nat
  ins_next :: "nat list"
  ins_prev :: "nat list"
  ins_bb :: "nat option"
  comments_before_ins :: "string list"
  ins_tealer_comments :: "string list"
  called_subroutine :: "string option"

datatype sub_ref = MainProgram | SubroutineNamed string

record basic_block =
  bb_instructions :: "nat list"
  bb_next :: "nat list"
  bb_prev :: "nat list"
  bb_idx :: "nat option"
  bb_subroutine :: "sub_ref option"
  bb_tealer_comments :: "string list"

record subroutine =
  sub_name :: string
  sub_entry :: nat
  sub_blocks :: "nat list"
  sub_caller_blocks :: "nat option list"

record teal =
  t_version :: int
  t_mode :: ContractType
  t_instructions :: "instruction list"
  t_block_store :: "basic_block list"
  t_bbs :: "nat list"
  t_main :: subroutine
  t_subroutines :: "(string \<times> subroutine) list"

definition Instruction :: "parsed_ins \<Rightarrow> instruction" where
  \<comment> \<open>a freshly parsed instruction: no line, no edges, no block\<close>
  "Instruction p =
     \<lparr>kind = p_kind p, ins_version = p_version p, ins_mode = p_mode p, ins_field = p_field p,
      ins_line = 0, ins_next = [], ins_prev = [], ins_bb = None, comments_before_ins = [],
      ins_tealer_comments = [], called_subroutine = None\<rparr>"

definition BasicBlock :: basic_block where
  "BasicBlock =
     \<lparr>bb_instructions = [], bb_next = [], bb_prev = [], bb_idx = None, bb_subroutine = None,
      bb_tealer_comments = []\<rparr>"

definition entry_instr :: "basic_block \<Rightarrow> py_error + nat" where
  \<comment> \<open>Modelled from the spec: the property \<open>BasicBlock.entry_instr\<close> (the class is not among
      the sources): instructions are held entry first, so it is \<open>instructions[0]\<close>.\<close>
  "entry_instr b = (case bb_instructions b of [] \<Rightarrow> Inl IndexError | i # _ \<Rightarrow> Inr i)"

definition exit_instr :: "basic_block \<Rightarrow> py_error + nat" where
  \<comment> \<open>Modelled from the spec: the property \<open>BasicBlock.exit_instr\<close> (the class is not among
      the sources): instructions are held exit last, so it is \<open>instructions[-1]\<close>.\<close>
  "exit_instr b = (case bb_instructions b of [] \<Rightarrow> Inl IndexError | _ # _ \<Rightarrow> Inr (last (bb_instructions b)))"

definition ins_add_next :: "instruction list \<Rightarrow> nat \<Rightarrow> nat \<Rightarrow> instruction list" where
  \<comment> \<open>\<open>a.add_next(b)\<close>\<close>
  "ins_add_next ins a b = ins[a := (ins ! a)\<lparr>ins_next := ins_next (ins ! a) @ [b]\<rparr>]"

definition ins_add_prev :: "instruction list \<Rightarrow> nat \<Rightarrow> nat \<Rightarrow> instruction list" where
  \<comment> \<open>\<open>a.add_prev(b)\<close>\<close>
  "ins_add_prev ins a b = ins[a := (ins ! a)\<lparr>ins_prev := ins_prev (ins ! a) @ [b]\<rparr>]"

definition bb_add_next :: "basic_block list \<Rightarrow> nat \<Rightarrow> nat \<Rightarrow> basic_block list" where
  "bb_add_next bbs a b = bbs[a := (bbs ! a)\<lparr>bb_next := bb_next (bbs ! a) @ [b]\<rparr>]"

definition bb_add_prev :: "basic_block list \<Rightarrow> nat \<Rightarrow> nat \<Rightarrow> basic_block list" where
  "bb_add_prev bbs a b = bbs[a := (bbs ! a)\<lparr>bb_prev := bb_prev (bbs ! a) @ [b]\<rparr>]"

section \<open>The parser (\<open>parse_teal.py\<close>)\<close>

subsection \<open>First pass\<close>

text \<open>
  \<open>parse_line\<close> and \<open>get_method_selector\<close> are defined outside the sources at hand and are
  parameters \<open>pl\<close> and \<open>sel\<close> of the model. \<open>pl line\<close> is \<open>Inl (ParseError msg)\<close> when
  \<open>parse_line\<close> raises \<open>ParseError(msg)\<close>, \<open>Inl (OtherException e)\<close> when it raises anything
  else, \<open>Inr None\<close> when it returns \<open>None\<close> and \<open>Inr (Some p)\<close> when it returns an instruction.
\<close>

datatype line_error = ParseError string | OtherException py_error

type_synonym parse_line = "string \<Rightarrow> line_error + parsed_ins option"

record fp_state =
  fp_idx :: nat
  fp_prev :: "nat option"
  fp_intcblock_ins :: "nat list"
  fp_bytecblock_ins :: "nat list"
  fp_instruction_comments :: "string list"
  fp_labels :: "string \<rightharpoonup> nat"
  fp_subroutines :: "(string \<times> nat list) list"
  fp_instructions :: "instruction list"

definition is_comment :: "string \<Rightarrow> bool" where
  "is_comment line \<longleftrightarrow> startswith (strip line) ''//''"

definition is_exit :: "ins_kind \<Rightarrow> bool" where
  \<comment> \<open>\<open>isinstance(ins, (B, Err, Return, Retsub))\<close>\<close>
  "is_exit k \<longleftrightarrow> (case k of B _ \<Rightarrow> True | Err \<Rightarrow> True | Return \<Rightarrow> True | Retsub \<Rightarrow> True | _ \<Rightarrow> False)"

definition add_instruction_comments :: "(string \<Rightarrow> string) \<Rightarrow> instruction \<Rightarrow> instruction" where
  "add_instruction_comments sel ins =
     (if kind ins = Txn \<and>
         (case ins_field ins of
            None \<Rightarrow> False
          | Some f \<Rightarrow> fld_class f = TransactionField (Nullary ''ApplicationID''))
      then ins\<lparr>ins_tealer_comments :=
                 ins_tealer_comments ins @ [''ApplicationID is 0 in Creation Txn'']\<rparr>
      else (case kind ins of
              Method method_signature \<Rightarrow>
                ins\<lparr>ins_tealer_comments :=
                      ins_tealer_comments ins @ [''method-selector: '' @ sel method_signature]\<rparr>
            | _ \<Rightarrow> ins))"

fun dd_append :: "(string \<times> nat list) list \<Rightarrow> string \<Rightarrow> nat \<Rightarrow> (string \<times> nat list) list" where
  \<comment> \<open>\<open>d[k].append(v)\<close> on a \<open>defaultdict(list)\<close>, keys in insertion order\<close>
  "dd_append [] k v = [(k, [v])]"
| "dd_append ((k', vs) # r) k v =
     (if k' = k then (k', vs @ [v]) # r else (k', vs) # dd_append r k v)"

definition add_parsed :: "(string \<Rightarrow> string) \<Rightarrow> fp_state \<Rightarrow> instruction \<Rightarrow> fp_state" where
  \<comment> \<open>the body of the loop from \<open>isinstance(ins, Intcblock)\<close> on; \<open>n\<close> is the new instruction\<close>
  "add_parsed sel st ins0 =
     (let n = length (fp_instructions st);
          k = kind ins0;
          intc = (case k of Intcblock _ \<Rightarrow> fp_intcblock_ins st @ [n] | _ \<Rightarrow> fp_intcblock_ins st);
          bytec = (case k of Bytecblock _ \<Rightarrow> fp_bytecblock_ins st @ [n] | _ \<Rightarrow> fp_bytecblock_ins st);
          ins1 = add_instruction_comments sel (ins0\<lparr>ins_line := fp_idx st\<rparr>);
          labels = (case k of Label l \<Rightarrow> (fp_labels st)(l \<mapsto> n) | _ \<Rightarrow> fp_labels st);
          instrs = (case fp_prev st of
                      None \<Rightarrow> fp_instructions st @ [ins1]
                    | Some q \<Rightarrow> ins_add_next (ins_add_prev (fp_instructions st @ [ins1]) n q) q n);
          prev = (if is_exit k then None else Some n);
          subs = (case k of Callsub l \<Rightarrow> dd_append (fp_subroutines st) l n | _ \<Rightarrow> fp_subroutines st)
      in st\<lparr>fp_prev := prev, fp_intcblock_ins := intc, fp_bytecblock_ins := bytec,
            fp_labels := labels, fp_subroutines := subs, fp_instructions := instrs\<rparr>)"

definition first_pass_step :: "parse_line \<Rightarrow> (string \<Rightarrow> string) \<Rightarrow> fp_state \<Rightarrow> string
    \<Rightarrow> failure + fp_state" where
  "first_pass_step pl sel st line =
     (if is_comment line
      then Inr (st\<lparr>fp_instruction_comments := fp_instruction_comments st @ [line],
                   fp_idx := fp_idx st + 1\<rparr>)
      else (case pl line of
              Inl (ParseError msg) \<Rightarrow> Inl (ParseErrorExit (fp_idx st) msg)
            | Inl (OtherException e) \<Rightarrow> Inl (Unhandled e)
            | Inr None \<Rightarrow> Inr (st\<lparr>fp_idx := fp_idx st + 1\<rparr>)
            | Inr (Some p) \<Rightarrow>
                (let cs = fp_instruction_comments st;
                     ins = (if cs \<noteq> [] then (Instruction p)\<lparr>comments_before_ins := cs\<rparr>
                            else Instruction p)
                 in Inr (add_parsed sel
                           (st\<lparr>fp_instruction_comments := [], fp_idx := fp_idx st + 1\<rparr>) ins))))"

fun first_pass_loop :: "parse_line \<Rightarrow> (string \<Rightarrow> string) \<Rightarrow> fp_state \<Rightarrow> string list
    \<Rightarrow> failure + fp_state" where
  "first_pass_loop pl sel st [] = Inr st"
| "first_pass_loop pl sel st (line # lines) =
     (case first_pass_step pl sel st line of
        Inl e \<Rightarrow> Inl e
      | Inr st' \<Rightarrow> first_pass_loop pl sel st' lines)"

definition fp_init :: fp_state where
  "fp_init =
     \<lparr>fp_idx = 0, fp_prev = None, fp_intcblock_ins = [], fp_bytecblock_ins = [],
      fp_instruction_comments = [], fp_labels = Map.empty, fp_subroutines = [],
      fp_instructions = []\<rparr>"

definition first_pass :: "parse_line \<Rightarrow> (string \<Rightarrow> string) \<Rightarrow> string list \<Rightarrow> failure + fp_state" where
  "first_pass pl sel lines = first_pass_loop pl sel fp_init lines"

subsection \<open>Second pass\<close>

definition jump_labels :: "ins_kind \<Rightarrow> string list" where
  \<comment> \<open>the labels a jump instruction is linked to: one for \<open>B\<close>, \<open>BZ\<close>, \<open>BNZ\<close>, all of
      \<open>ins.labels\<close> for \<open>Switch\<close> and \<open>Match\<close>\<close>
  "jump_labels k =
     (case k of
        B l \<Rightarrow> [l] | BZ l \<Rightarrow> [l] | BNZ l \<Rightarrow> [l] | Switch ls \<Rightarrow> ls | Match ls \<Rightarrow> ls | _ \<Rightarrow> [])"

fun link_labels :: "(string \<rightharpoonup> nat) \<Rightarrow> nat \<Rightarrow> string list \<Rightarrow> instruction list
    \<Rightarrow> py_error + instruction list" where
  "link_labels labels i [] ins = Inr ins"
| "link_labels labels i (l # ls) ins =
     (case labels l of
        None \<Rightarrow> Inl KeyError
      | Some j \<Rightarrow> link_labels labels i ls (ins_add_prev (ins_add_next ins i j) j i))"

fun second_pass_loop :: "(string \<rightharpoonup> nat) \<Rightarrow> nat list \<Rightarrow> instruction list
    \<Rightarrow> py_error + instruction list" where
  "second_pass_loop labels [] ins = Inr ins"
| "second_pass_loop labels (i # rest) ins =
     (case link_labels labels i (jump_labels (kind (ins ! i))) ins of
        Inl e \<Rightarrow> Inl e
      | Inr ins' \<Rightarrow> second_pass_loop labels rest ins')"

definition second_pass :: "instruction list \<Rightarrow> (string \<rightharpoonup> nat) \<Rightarrow> py_error + instruction list" where
  "second_pass ins labels = second_pass_loop labels [0..<length ins] ins"

subsection \<open>Third pass: basic blocks\<close>

record cb_state =
  cb_instructions :: "instruction list"
  cb_all_bbs :: "basic_block list"
  cb_bb :: nat

definition new_block :: "bool \<Rightarrow> cb_state \<Rightarrow> cb_state" where
  \<comment> \<open>\<open>next_bb = BasicBlock(); all_bbs.append(next_bb)\<close>, with the default edge from the
      current block when \<open>edge\<close> is set, then \<open>bb = next_bb\<close>\<close>
  "new_block edge st =
     (let bb = cb_bb st;
          next_bb = length (cb_all_bbs st);
          bbs1 = cb_all_bbs st @ [BasicBlock];
          bbs2 = (if edge then bb_add_prev (bb_add_next bbs1 bb next_bb) next_bb bb else bbs1)
      in st\<lparr>cb_all_bbs := bbs2, cb_bb := next_bb\<rparr>)"

definition is_Label :: "ins_kind \<Rightarrow> bool" where
  "is_Label k \<longleftrightarrow> (case k of Label _ \<Rightarrow> True | _ \<Rightarrow> False)"

definition is_Callsub :: "ins_kind \<Rightarrow> bool" where
  "is_Callsub k \<longleftrightarrow> (case k of Callsub _ \<Rightarrow> True | _ \<Rightarrow> False)"

definition is_B :: "ins_kind \<Rightarrow> bool" where
  "is_B k \<longleftrightarrow> (case k of B _ \<Rightarrow> True | _ \<Rightarrow> False)"

definition create_bb_step :: "nat \<Rightarrow> cb_state \<Rightarrow> cb_state" where
  \<comment> \<open>one round of the loop, for the instruction \<open>i\<close>; \<open>instructions[-1]\<close> is the last one\<close>
  "create_bb_step i st0 =
     (let ins = cb_instructions st0 ! i;
          is_last = (i = length (cb_instructions st0) - 1);
          st1 = (if is_Label (kind ins) \<and> bb_instructions (cb_all_bbs st0 ! cb_bb st0) \<noteq> []
                 then new_block True st0 else st0);
          bb = cb_bb st1;
          st2 = st1\<lparr>cb_all_bbs :=
                       (cb_all_bbs st1)[bb := (cb_all_bbs st1 ! bb)
                          \<lparr>bb_instructions := bb_instructions (cb_all_bbs st1 ! bb) @ [i]\<rparr>],
                     cb_instructions := (cb_instructions st1)[i := ins\<lparr>ins_bb := Some bb\<rparr>]\<rparr>
      in if 1 < length (ins_next ins) \<or> is_Callsub (kind ins)
         then (if is_last then st2
               else (let st3 = new_block True st2
                     in if length (ins_next ins) = 0 \<or> is_B (kind ins)
                        then (if is_last then st3 else new_block False st3)
                        else st3))
         else (if length (ins_next ins) = 0 \<or> is_B (kind ins)
               then (if is_last then st2 else new_block False st2)
               else st2))"

definition create_bb :: "instruction list \<Rightarrow> cb_state" where
  "create_bb instructions =
     fold create_bb_step [0..<length instructions]
       \<lparr>cb_instructions = instructions, cb_all_bbs = [BasicBlock], cb_bb = 0\<rparr>"

subsection \<open>Fourth pass\<close>

fun fourth_pass_edges :: "instruction list \<Rightarrow> nat \<Rightarrow> nat list \<Rightarrow> basic_block list
    \<Rightarrow> py_error + basic_block list" where
  "fourth_pass_edges ins b [] bbs = Inr bbs"
| "fourth_pass_edges ins b (next_ins # rest) bbs =
     (case ins_bb (ins ! next_ins) of
        None \<Rightarrow> Inl AttributeError
      | Some next_bb \<Rightarrow>
          if next_bb \<notin> set (bb_next (bbs ! b))
          then (if b \<in> set (bb_prev (bbs ! next_bb)) then Inl AssertionError
                else fourth_pass_edges ins b rest (bb_add_prev (bb_add_next bbs b next_bb) next_bb b))
          else fourth_pass_edges ins b rest bbs)"

fun fourth_pass_loop :: "instruction list \<Rightarrow> nat list \<Rightarrow> basic_block list
    \<Rightarrow> py_error + basic_block list" where
  "fourth_pass_loop ins [] bbs = Inr bbs"
| "fourth_pass_loop ins (b # rest) bbs =
     (case exit_instr (bbs ! b) of
        Inl e \<Rightarrow> Inl e
      | Inr i \<Rightarrow>
          (case fourth_pass_edges ins b (ins_next (ins ! i)) bbs of
             Inl e \<Rightarrow> Inl e
           | Inr bbs' \<Rightarrow> fourth_pass_loop ins rest bbs'))"

definition fourth_pass :: "instruction list \<Rightarrow> basic_block list \<Rightarrow> py_error + basic_block list" where
  "fourth_pass ins basic_blocks = fourth_pass_loop ins [0..<length basic_blocks] basic_blocks"

subsection \<open>Block indices\<close>

definition entry_line :: "instruction list \<Rightarrow> basic_block list \<Rightarrow> nat \<Rightarrow> nat" where
  \<comment> \<open>the sort key \<open>x.entry_instr.line\<close> of a block that has instructions\<close>
  "entry_line ins store b = ins_line (ins ! hd (bb_instructions (store ! b)))"

definition set_idx :: "nat \<times> nat \<Rightarrow> basic_block list \<Rightarrow> basic_block list" where
  "set_idx = (\<lambda>(i, b) store. store[b := (store ! b)\<lparr>bb_idx := Some i\<rparr>])"

definition add_basic_blocks_idx :: "instruction list \<Rightarrow> basic_block list \<Rightarrow> nat list
    \<Rightarrow> py_error + basic_block list \<times> nat list" where
  \<comment> \<open>\<open>bbs\<close> is the list of blocks to sort; the result is the store with the indices set and
      the sorted list. The key of a block without instructions raises \<open>IndexError\<close>.\<close>
  "add_basic_blocks_idx ins store bbs =
     (if \<exists>b\<in>set bbs. bb_instructions (store ! b) = [] then Inl IndexError
      else (let sorted_bbs = sort_key (entry_line ins store) bbs
            in Inr (fold set_idx (enumerate 0 sorted_bbs) store, sorted_bbs)))"

subsection \<open>Contract type and version check\<close>

fun detect_contract_type :: "instruction list \<Rightarrow> ContractType" where
  "detect_contract_type [] = ANY"
| "detect_contract_type (ins # rest) =
     (if ins_mode ins \<noteq> ANY then ins_mode ins else detect_contract_type rest)"

text \<open>
  The lines \<open>_verify_version\<close> prints to \<open>stderr\<close>, as values: the line of the instruction, the
  field when the message is about a field, the program version and the version required.
\<close>

datatype diagnostic =
    InsNotSupported nat int int
  | FieldNotSupported nat field_class int int
  | ModeConflict "nat list" "nat list"

record vv_state =
  vv_stateful_ins :: "instruction list"
  vv_stateless_ins :: "instruction list"
  vv_error :: bool
  vv_stderr :: "diagnostic list"

definition is_versioned_field :: "field_class \<Rightarrow> bool" where
  \<comment> \<open>\<open>isinstance(field, (TransactionField, AssetHoldingField, AssetParamsField,
      AppParamsField, AcctParamsField))\<close>\<close>
  "is_versioned_field c \<longleftrightarrow> (case c of OtherField _ \<Rightarrow> False | _ \<Rightarrow> True)"

definition verify_ins :: "int \<Rightarrow> instruction \<Rightarrow> vv_state \<Rightarrow> vv_state" where
  "verify_ins program_version ins st =
     (let st1 =
        (if program_version < ins_version ins
         then st\<lparr>vv_stderr := vv_stderr st @
                    [InsNotSupported (ins_line ins) program_version (ins_version ins)],
                 vv_error := True\<rparr>
         else (case ins_field ins of
                 None \<Rightarrow> st
               | Some f \<Rightarrow>
                   if is_versioned_field (fld_class f) \<and> program_version < fld_version f
                   then st\<lparr>vv_stderr := vv_stderr st @
                              [FieldNotSupported (ins_line ins) (fld_class f) program_version
                                 (fld_version f)],
                           vv_error := True\<rparr>
                   else st))
      in if ins_mode ins = STATEFULL then st1\<lparr>vv_stateful_ins := vv_stateful_ins st1 @ [ins]\<rparr>
         else if ins_mode ins = STATELESS
           then st1\<lparr>vv_stateless_ins := vv_stateless_ins st1 @ [ins]\<rparr>
         else st1)"

definition verify_version :: "instruction list \<Rightarrow> int \<Rightarrow> bool \<times> diagnostic list" where
  \<comment> \<open>the result and what was printed\<close>
  "verify_version ins_list program_version =
     (let st = fold (verify_ins program_version) ins_list
                 \<lparr>vv_stateful_ins = [], vv_stateless_ins = [], vv_error = False, vv_stderr = []\<rparr>
      in if vv_stateless_ins st \<noteq> [] \<and> vv_stateful_ins st \<noteq> []
         then (True, vv_stderr st @
                 [ModeConflict (map ins_line (vv_stateless_ins st))
                    (map ins_line (vv_stateful_ins st))])
         else (vv_error st, vv_stderr st))"

subsection \<open>Subroutines\<close>

definition successors :: "basic_block list \<Rightarrow> nat \<Rightarrow> nat list" where
  \<comment> \<open>\<open>bb.next\<close>; a reference outside the store stands for no object and has no successor\<close>
  "successors store b = (if b < length store then bb_next (store ! b) else [])"

fun push_unseen :: "nat list \<Rightarrow> nat list \<Rightarrow> nat list \<Rightarrow> nat list" where
  \<comment> \<open>the inner loop over \<open>bb.next\<close>; the stack is held top first\<close>
  "push_unseen blocks stack [] = stack"
| "push_unseen blocks stack (next_bb # rest) =
     push_unseen blocks
       (if next_bb \<notin> set blocks \<and> next_bb \<notin> set stack then next_bb # stack else stack) rest"

definition all_successors :: "basic_block list \<Rightarrow> nat set" where
  "all_successors store = (\<Union>b\<in>set store. set (bb_next b))"

lemma push_unseen_measure:
  "finite U \<Longrightarrow> set ns \<subseteq> U \<Longrightarrow>
     length (push_unseen vis st ns) + card (U - set vis - set (push_unseen vis st ns))
       = length st + card (U - set vis - set st)"
proof (induction ns arbitrary: st)
  case Nil
  then show ?case by simp
next
  case (Cons n ns)
  show ?case
  proof (cases "n \<notin> set vis \<and> n \<notin> set st")
    case True
    with Cons.prems have m: "n \<in> U - set vis - set st" by simp
    have e: "U - set vis - set (n # st) = (U - set vis - set st) - {n}" by auto
    from Cons.prems(1) have "finite (U - set vis - set st)" by simp
    from card_Suc_Diff1 [OF this m]
    have "Suc (card (U - set vis - set (n # st))) = card (U - set vis - set st)"
      unfolding e .
    with True Cons.IH [of "n # st"] Cons.prems show ?thesis by simp
  next
    case False
    with Cons.IH [of st] Cons.prems show ?thesis by auto
  qed
qed

function dfs :: "basic_block list \<Rightarrow> nat list \<Rightarrow> nat list \<Rightarrow> nat list" where
  "dfs store subroutines_blocks [] = subroutines_blocks"
| "dfs store subroutines_blocks (bb # stack) =
     dfs store (subroutines_blocks @ [bb])
       (push_unseen (subroutines_blocks @ [bb]) stack (successors store bb))"
  by pat_completeness auto
termination
proof (relation "measure (\<lambda>(store, vis, st). length st + card (all_successors store - set vis - set st))")
  show "wf (measure (\<lambda>(store, vis, st). length st + card (all_successors store - set vis - set st)))"
    by simp
next
  fix store :: "basic_block list" and vis :: "nat list" and bb :: nat and stack :: "nat list"
  have f: "finite (all_successors store)"
    by (simp add: all_successors_def)
  have s: "set (successors store bb) \<subseteq> all_successors store"
  proof (cases "bb < length store")
    case True
    then have "store ! bb \<in> set store" by (rule nth_mem)
    then have "set (bb_next (store ! bb)) \<subseteq> all_successors store"
      unfolding all_successors_def by blast
    with True show ?thesis by (simp add: successors_def)
  next
    case False
    then show ?thesis by (simp add: successors_def)
  qed
  have e: "all_successors store - set vis - set (bb # stack)
             = all_successors store - set (vis @ [bb]) - set stack"
    by auto
  show "((store, vis @ [bb], push_unseen (vis @ [bb]) stack (successors store bb)),
         (store, vis, bb # stack))
          \<in> measure (\<lambda>(store, vis, st). length st + card (all_successors store - set vis - set st))"
  proof -
    from push_unseen_measure [OF f s, of "vis @ [bb]" stack]
    have "length (push_unseen (vis @ [bb]) stack (successors store bb))
            + card (all_successors store - set (vis @ [bb])
                      - set (push_unseen (vis @ [bb]) stack (successors store bb)))
          = length stack + card (all_successors store - set vis - set (bb # stack))"
      by (simp only: e)
    then show ?thesis by simp
  qed
qed

definition identify_subroutine_blocks :: "basic_block list \<Rightarrow> nat \<Rightarrow> nat list" where
  "identify_subroutine_blocks store entry_block = dfs store [] [entry_block]"

record sub_state =
  ss_instructions :: "instruction list"
  ss_store :: "basic_block list"
  ss_subroutines :: "(string \<times> subroutine) list"

definition set_called :: "string \<Rightarrow> nat \<Rightarrow> instruction list \<Rightarrow> instruction list" where
  "set_called name i ins = ins[i := (ins ! i)\<lparr>called_subroutine := Some name\<rparr>]"

definition set_subroutine :: "sub_ref \<Rightarrow> nat \<Rightarrow> basic_block list \<Rightarrow> basic_block list" where
  "set_subroutine r b store = store[b := (store ! b)\<lparr>bb_subroutine := Some r\<rparr>]"

definition discover_subroutine :: "(string \<rightharpoonup> nat) \<Rightarrow> string \<times> nat list \<Rightarrow> sub_state
    \<Rightarrow> py_error + sub_state" where
  \<comment> \<open>one round of the loop over \<open>subroutine_callsubs\<close>\<close>
  "discover_subroutine labels = (\<lambda>(subroutine_name, callsubs) st.
     (case labels subroutine_name of
        None \<Rightarrow> Inl KeyError
      | Some label_ins \<Rightarrow>
          (case ins_bb (ss_instructions st ! label_ins) of
             None \<Rightarrow> Inl AttributeError
           | Some entry \<Rightarrow>
               (let store1 = (ss_store st)[entry := (ss_store st ! entry)
                       \<lparr>bb_tealer_comments := bb_tealer_comments (ss_store st ! entry)
                           @ [''Subroutine '' @ subroutine_name]\<rparr>];
                    subroutine_blocks = identify_subroutine_blocks store1 entry;
                    subroutine_obj =
                      \<lparr>sub_name = subroutine_name, sub_entry = entry,
                       sub_blocks = subroutine_blocks,
                       sub_caller_blocks = map (\<lambda>i. ins_bb (ss_instructions st ! i)) callsubs\<rparr>
                in Inr \<lparr>ss_instructions = fold (set_called subroutine_name) callsubs (ss_instructions st),
                        ss_store = fold (set_subroutine (SubroutineNamed subroutine_name))
                                     subroutine_blocks store1,
                        ss_subroutines = ss_subroutines st @ [(subroutine_name, subroutine_obj)]\<rparr>))))"

fun discover_subroutines :: "(string \<rightharpoonup> nat) \<Rightarrow> (string \<times> nat list) list \<Rightarrow> sub_state
    \<Rightarrow> py_error + sub_state" where
  "discover_subroutines labels [] st = Inr st"
| "discover_subroutines labels (c # rest) st =
     (case discover_subroutine labels c st of
        Inl e \<Rightarrow> Inl e
      | Inr st' \<Rightarrow> discover_subroutines labels rest st')"

definition default_subroutine :: "nat \<Rightarrow> basic_block list \<Rightarrow> basic_block list" where
  \<comment> \<open>\<open>if bi._subroutine is None: bi.subroutine = main_program\<close>\<close>
  "default_subroutine b store =
     (if bb_subroutine (store ! b) = None then set_subroutine MainProgram b store else store)"

subsection \<open>\<open>parse_teal\<close>\<close>

text \<open>
  \<open>parse_teal\<close> on the lines of the source (\<open>source_code.splitlines()\<close>), up to the
  construction of the \<open>Teal\<close> object. The result is the program together with what
  \<open>_verify_version\<close> printed. What follows in the source (block comments with the cost, the
  constant pools and the transaction context analysis) works on classes that are not among the
  sources and does not change the instructions, the blocks or the subroutines.
\<close>

definition unhandled :: "py_error + 'a \<Rightarrow> failure + 'a" where
  "unhandled r = (case r of Inl e \<Rightarrow> Inl (Unhandled e) | Inr x \<Rightarrow> Inr x)"

definition build_teal :: "fp_state \<Rightarrow> instruction list \<Rightarrow> basic_block list \<Rightarrow> nat list
    \<Rightarrow> failure + teal \<times> diagnostic list" where
  \<comment> \<open>from \<open>mode = _detect_contract_type(instructions)\<close> to the \<open>Teal\<close> object\<close>
  "build_teal fp instructions store all_bbs =
     (let mode = detect_contract_type instructions
      in case instructions of
           [] \<Rightarrow> Inl (Unhandled IndexError)
         | ins0 # _ \<Rightarrow>
             (let version = (case kind ins0 of Pragma v \<Rightarrow> v | _ \<Rightarrow> 1);
                  printed = snd (verify_version instructions version)
              in case unhandled (discover_subroutines (fp_labels fp) (fp_subroutines fp)
                        \<lparr>ss_instructions = instructions, ss_store = store, ss_subroutines = []\<rparr>) of
                   Inl e \<Rightarrow> Inl e
                 | Inr ss \<Rightarrow>
                     (case all_bbs of
                        [] \<Rightarrow> Inl (Unhandled IndexError)
                      | bb0 # _ \<Rightarrow>
                          (let main_entry_point_blocks = identify_subroutine_blocks (ss_store ss) bb0;
                               main_program =
                                 \<lparr>sub_name = ''__main__'', sub_entry = bb0,
                                  sub_blocks = main_entry_point_blocks, sub_caller_blocks = []\<rparr>;
                               store1 = fold (set_subroutine MainProgram) main_entry_point_blocks
                                          (ss_store ss);
                               store2 = fold default_subroutine all_bbs store1
                           in Inr (\<lparr>t_version = version, t_mode = mode,
                                    t_instructions = ss_instructions ss, t_block_store = store2,
                                    t_bbs = all_bbs, t_main = main_program,
                                    t_subroutines = ss_subroutines ss\<rparr>, printed)))))"

definition parse_teal :: "parse_line \<Rightarrow> (string \<Rightarrow> string) \<Rightarrow> string list
    \<Rightarrow> failure + teal \<times> diagnostic list" where
  "parse_teal pl sel lines =
     (case first_pass pl sel lines of
        Inl e \<Rightarrow> Inl e
      | Inr fp \<Rightarrow>
          (case unhandled (second_pass (fp_instructions fp) (fp_labels fp)) of
             Inl e \<Rightarrow> Inl e
           | Inr ins2 \<Rightarrow>
               (let cb = create_bb ins2
                in case unhandled (fourth_pass (cb_instructions cb) (cb_all_bbs cb)) of
                     Inl e \<Rightarrow> Inl e
                   | Inr store4 \<Rightarrow>
                       (case unhandled (add_basic_blocks_idx (cb_instructions cb) store4
                                 [0..<length store4]) of
                          Inl e \<Rightarrow> Inl e
                        | Inr (store5, all_bbs) \<Rightarrow>
                            build_teal fp (cb_instructions cb) store5 all_bbs))))"

subsection \<open>An instruction parser for examples\<close>

text \<open>
  A small instance of the parameter \<open>pl\<close>, used to run the parser on concrete programs. It
  returns \<open>None\<close> on a blank line and knows a handful of instructions. A \<open>txn\<close> line is
  parsed with \<open>parse_transaction_field\<close>, whose \<open>KeyError\<close> and \<open>ValueError\<close> it lets through
  as they are. That an unterminated string after \<open>byte\<close> is what raises \<open>ParseError\<close>, and that
  any other line is kept as an instruction of no known class, is an assumption of the example.
\<close>

definition example_ins :: "ins_kind \<Rightarrow> int \<Rightarrow> parsed_ins" where
  "example_ins k v = \<lparr>p_kind = k, p_version = v, p_mode = ANY, p_field = None\<rparr>"

definition example_lines :: "(string \<times> parsed_ins) list" where
  "example_lines =
     [(''#pragma version 7'', example_ins (Pragma 7) 1),
      (''callsub s'', example_ins (Callsub ''s'') 4),
      (''int 1'', example_ins (Other ''int 1'') 1),
      (''return'', example_ins Return 2),
      (''s:'', example_ins (Label ''s'') 1),
      (''t:'', example_ins (Label ''t'') 1),
      (''retsub'', example_ins Retsub 4),
      (''b s'', example_ins (B ''s'') 2),
      (''bz s'', example_ins (BZ ''s'') 2),
      (''bnz t'', example_ins (BNZ ''t'') 1),
      (''switch s t'', example_ins (Switch [''s'', ''t'']) 8),
      (''err'', example_ins Err 1)]"

definition example_parse_line :: parse_line where
  "example_parse_line line =
     (let s = strip line in
      if s = [] then Inr None
      else if startswith s ''txn '' then
        (case parse_transaction_field (strip (drop 4 s)) False of
           Inl e \<Rightarrow> Inl (OtherException e)
         | Inr f \<Rightarrow>
             Inr (Some \<lparr>p_kind = Txn, p_version = 1, p_mode = ANY,
                        p_field = Some \<lparr>fld_class = TransactionField f, fld_version = 1\<rparr>\<rparr>))
      else if startswith s ''byte '' \<and> odd (length (filter (\<lambda>c. c = CHR 0x22) s))
        then Inl (ParseError (''unterminated string in '' @ s))
      else (case map_of example_lines s of
              None \<Rightarrow> Inr (Some (example_ins (Other s) 1))
            | Some p \<Rightarrow> Inr (Some p)))"

definition example_selector :: "string \<Rightarrow> string" where
  "example_selector s = ''''"

subsection \<open>Example instructions\<close>

definition example_itxn :: instruction where
  "example_itxn =
     (Instruction \<lparr>p_kind = Other ''itxn LastLog'', p_version = 5, p_mode = STATEFULL,
        p_field = Some \<lparr>fld_class = TransactionField (Nullary ''LastLog''), fld_version = 6\<rparr>\<rparr>)
       \<lparr>ins_line := 2\<rparr>"

definition example_txn :: instruction where
  "example_txn =
     (Instruction \<lparr>p_kind = Txn, p_version = 1, p_mode = ANY,
        p_field = Some \<lparr>fld_class = TransactionField (Nullary ''LastLog''), fld_version = 6\<rparr>\<rparr>)
       \<lparr>ins_line := 2\<rparr>"

section \<open>Reference definitions for the parser\<close>

text \<open>
  The position of the last \<open>Label\<close> with a given name in a list of instruction kinds, and the
  default edges of the first pass stated position by position.
\<close>

definition last_label_idx :: "ins_kind list \<Rightarrow> string \<Rightarrow> nat option" where
  "last_label_idx ks l =
     (case filter (\<lambda>j. ks ! j = Label l) (rev [0..<length ks]) of [] \<Rightarrow> None | j # _ \<Rightarrow> Some j)"

definition default_edges :: "instruction list \<Rightarrow> bool" where
  "default_edges ins \<longleftrightarrow>
     (\<forall>i<length ins.
        ins_next (ins ! i) = (if \<not> is_exit (kind (ins ! i)) \<and> Suc i < length ins then [Suc i] else []) \<and>
        ins_prev (ins ! i) = (if 0 < i \<and> \<not> is_exit (kind (ins ! (i - 1))) then [i - 1] else []))"

definition fp_inv :: "fp_state \<Rightarrow> bool" where
  "fp_inv st \<longleftrightarrow>
     default_edges (fp_instructions st) \<and>
     fp_prev st = (if fp_instructions st = [] \<or> is_exit (kind (last (fp_instructions st))) then None
                   else Some (length (fp_instructions st) - 1)) \<and>
     (\<forall>l. fp_labels st l = last_label_idx (map kind (fp_instructions st)) l)"

definition example_program :: "string list" where
  "example_program =
     [''#pragma version 7'', '''', ''callsub s'', ''// the result'', ''int 1'', ''return'',
      ''s:'', ''    retsub'']"

definition example_duplicate_labels :: "string list" where
  "example_duplicate_labels = [''s:'', ''int 1'', ''bz s'', ''s:'', ''b s'', ''return'']"

text \<open>Two block stores that differ at most in the subroutine references and comments.\<close>

definition same_blocks :: "basic_block list \<Rightarrow> basic_block list \<Rightarrow> bool" where
  "same_blocks store store' \<longleftrightarrow>
     length store' = length store \<and>
     (\<forall>b. bb_instructions (store' ! b) = bb_instructions (store ! b) \<and>
          bb_next (store' ! b) = bb_next (store ! b) \<and>
          bb_idx (store' ! b) = bb_idx (store ! b))"

text \<open>
  Reachability in the graph of basic blocks, blocks that no subroutine owns yet, and what holds
  after each round of the loop over the subroutines, relative to the blocks it started from.
\<close>

definition block_edges :: "basic_block list \<Rightarrow> (nat \<times> nat) set" where
  "block_edges store = {(a, b). a < length store \<and> b \<in> set (bb_next (store ! a))}"

definition reachable_blocks :: "basic_block list \<Rightarrow> nat \<Rightarrow> nat set" where
  "reachable_blocks store entry = {b. (entry, b) \<in> (block_edges store)\<^sup>*}"

definition unowned :: "basic_block list \<Rightarrow> bool" where
  "unowned store \<longleftrightarrow> (\<forall>b<length store. bb_subroutine (store ! b) = None)"

definition subroutines_inv :: "basic_block list \<Rightarrow> sub_state \<Rightarrow> bool" where
  "subroutines_inv store0 ss \<longleftrightarrow>
     same_blocks store0 (ss_store ss) \<and>
     (\<forall>(n, s)\<in>set (ss_subroutines ss). set (sub_blocks s) = reachable_blocks store0 (sub_entry s)) \<and>
     (\<forall>b<length store0. (\<forall>(n, s)\<in>set (ss_subroutines ss). b \<notin> set (sub_blocks s))
          \<longrightarrow> bb_subroutine (ss_store ss ! b) = None)"

definition example_subroutine :: "string list" where
  "example_subroutine =
     [''callsub s'', ''int 1'', ''return'', ''err'',
      ''s:'', ''int 1'', ''bnz t'', ''int 1'', ''t:'', ''retsub'']"


section \<open>Properties of the field and integer parsers\<close>

lemma digit_val_digit_of: "c \<in> set hex_digits \<Longrightarrow> digit_val c = Some (digit_of c)"
proof -
  have "\<forall>c\<in>set hex_digits. digit_val c = Some (digit_of c)"
    by code_simp
  then show "c \<in> set hex_digits \<Longrightarrow> digit_val c = Some (digit_of c)"
    by blast
qed

lemma hex_digit_plain:
  "c \<in> set hex_digits \<Longrightarrow> \<not> is_int_space c \<and> c \<noteq> CHR ''_'' \<and> c \<noteq> CHR ''-'' \<and> c \<noteq> CHR ''+''
     \<and> c \<noteq> CHR ''x'' \<and> c \<noteq> CHR ''X'' \<and> c \<noteq> CHR ''o'' \<and> c \<noteq> CHR ''O''"
proof -
  have "\<forall>c\<in>set hex_digits. \<not> is_int_space c \<and> c \<noteq> CHR ''_'' \<and> c \<noteq> CHR ''-'' \<and> c \<noteq> CHR ''+''
     \<and> c \<noteq> CHR ''x'' \<and> c \<noteq> CHR ''X'' \<and> c \<noteq> CHR ''o'' \<and> c \<noteq> CHR ''O''"
    by code_simp
  then show "c \<in> set hex_digits \<Longrightarrow> ?thesis"
    by blast
qed

lemma digits_value_plain:
  "\<forall>c\<in>set ds. is_digit b c \<Longrightarrow>
     digits_value b False acc ds = Some (foldl (\<lambda>a c. a * b + digit_of c) acc ds)"
proof (induction ds arbitrary: acc)
  case Nil
  then show ?case by simp
next
  case (Cons c cs)
  then have c: "c \<in> set hex_digits" "digit_of c < b" and cs: "\<forall>c\<in>set cs. is_digit b c"
    by (simp_all add: is_digit_def)
  from c(1) have "c \<noteq> CHR ''_''" using hex_digit_plain by blast
  with c Cons.IH [OF cs] show ?case
    by (simp add: digit_val_digit_of)
qed

lemma int_strip_plain:
  assumes "s \<noteq> []" "\<not> is_int_space (hd s)" "\<not> is_int_space (last s)"
  shows "int_strip s = s"
proof -
  from assms have 1: "dropWhile is_int_space s = s"
    by (cases s) simp_all
  from assms have "rev s \<noteq> []" "\<not> is_int_space (hd (rev s))"
    by (simp_all add: hd_rev)
  then have "dropWhile is_int_space (rev s) = rev s"
    by (cases "rev s") simp_all
  with 1 show ?thesis by (simp add: int_strip_def)
qed

lemma py_int_plain:
  assumes ne: "ds \<noteq> []" and dig: "\<forall>c\<in>set ds. is_digit b c"
    and np: "\<not> has_base_prefix b ds"
  shows "py_int b ds =
           (if b \<notin> {2, 4, 8, 16, 32} \<and> int_max_str_digits < length ds then Inl ValueError
            else Inr (int (numeral_value b ds)))"
proof -
  from ne dig have h: "hd ds \<in> set hex_digits" and l: "last ds \<in> set hex_digits"
    by (simp_all add: is_digit_def)
  have st: "int_strip ds = ds"
    using ne h l hex_digit_plain by (intro int_strip_plain) blast+
  obtain c cs where ds: "ds = c # cs" using ne by (cases ds) auto
  with h have c: "c \<in> set hex_digits" by simp
  have sg: "split_sign ds = (False, ds)"
    using hex_digit_plain [OF c] by (simp add: split_sign_def ds)
  have dp: "drop_base_prefix b ds = ds"
    using np by (simp add: drop_base_prefix_def)
  have dv: "digits_value b False 0 ds = Some (numeral_value b ds)"
    using digits_value_plain [OF dig] by (simp add: numeral_value_def)
  have "\<forall>d\<in>set ds. d \<noteq> CHR ''_''"
    using dig hex_digit_plain unfolding is_digit_def by blast
  then have fl: "filter (\<lambda>d. d \<noteq> CHR ''_'') ds = ds"
    by (simp add: filter_id_conv)
  have nu: "c \<noteq> CHR ''_''" using hex_digit_plain [OF c] by blast
  have "py_int b (c # cs) =
           (if b \<notin> {2, 4, 8, 16, 32} \<and> int_max_str_digits < length (c # cs) then Inl ValueError
            else Inr (int (numeral_value b (c # cs))))"
    unfolding py_int_def st [unfolded ds] sg [unfolded ds] prod.case Let_def dp [unfolded ds]
      list.case dv [unfolded ds] option.case fl [unfolded ds]
    using nu by simp
  then show ?thesis unfolding ds .
qed

lemma startswith_appendD: "startswith s (p @ q) \<Longrightarrow> startswith s p"
proof -
  assume "startswith s (p @ q)"
  then have "take (length p) (take (length (p @ q)) s) = take (length p) (p @ q)"
    by (simp add: startswith_def)
  then show ?thesis by (simp add: startswith_def min_def)
qed

lemma startswith_mem: "startswith s p \<Longrightarrow> set p \<subseteq> set s"
proof -
  assume "startswith s p"
  then have "set p = set (take (length p) s)" by (simp add: startswith_def)
  then show ?thesis using set_take_subset by fastforce
qed

lemma no_prefix_digits:
  assumes "\<forall>c\<in>set ds. is_digit b c"
  shows "\<not> has_base_prefix b ds"
proof -
  have "\<not> startswith ds [a, x]" if "x \<notin> set hex_digits" for a x
    using startswith_mem [of ds "[a, x]"] assms that by (auto simp: is_digit_def)
  then show ?thesis
    by (simp add: has_base_prefix_def hex_digits_def)
qed

lemma parse_int_dispatch:
  "(startswith x ''0x'' \<longrightarrow> parse_int x = py_int 16 (drop 2 x))
   \<and> (\<not> startswith x ''0x'' \<and> startswith x ''0'' \<longrightarrow> parse_int x = py_int 8 x)
   \<and> (\<not> startswith x ''0'' \<longrightarrow> parse_int x = py_int 10 x)"
  using startswith_appendD [of x "''0''" "''x''"] by (auto simp: parse_int_def)

lemma parse_int_hex:
  assumes "hs \<noteq> []" "\<forall>c\<in>set hs. is_digit 16 c"
  shows "parse_int (''0x'' @ hs) = Inr (int (numeral_value 16 hs))"
proof -
  have "startswith (''0x'' @ hs) ''0x''" by (simp add: startswith_def)
  then have "parse_int (''0x'' @ hs) = py_int 16 hs" by (simp add: parse_int_def)
  with py_int_plain [OF assms no_prefix_digits [OF assms(2)]] show ?thesis by simp
qed

lemma parse_int_oct:
  assumes d: "\<forall>c\<in>set os. is_digit 8 c"
  shows "parse_int (''0'' @ os) = Inr (int (numeral_value 8 os))"
proof -
  have z: "is_digit 8 (CHR ''0'')"
    by code_simp
  with d have all: "\<forall>c\<in>set (''0'' @ os). is_digit 8 c" by simp
  have "CHR ''x'' \<notin> set (''0'' @ os)"
  proof
    assume "CHR ''x'' \<in> set (''0'' @ os)"
    with all have "CHR ''x'' \<in> set hex_digits" unfolding is_digit_def by blast
    from hex_digit_plain [OF this] show False by blast
  qed
  then have nx: "\<not> startswith (''0'' @ os) ''0x''"
    using startswith_mem [of "''0'' @ os" "''0x''"] by auto
  have s0: "startswith (''0'' @ os) ''0''" by (simp add: startswith_def)
  have "digit_of (CHR ''0'') = 0" by code_simp
  then have v: "numeral_value 8 (''0'' @ os) = numeral_value 8 os"
    by (simp add: numeral_value_def)
  have p: "py_int 8 (''0'' @ os) = Inr (int (numeral_value 8 (''0'' @ os)))"
    using py_int_plain [OF _ all no_prefix_digits [OF all]] by simp
  have "parse_int (''0'' @ os) = py_int 8 (''0'' @ os)"
    using parse_int_dispatch [of "''0'' @ os"] nx s0 by blast
  with p v show ?thesis by simp
qed

lemma parse_int_dec:
  assumes "ds \<noteq> []" "hd ds \<noteq> CHR ''0''" "\<forall>c\<in>set ds. is_digit 10 c"
  shows "parse_int ds =
           (if int_max_str_digits < length ds then Inl ValueError
            else Inr (int (numeral_value 10 ds)))"
proof -
  from assms(1,2) have "\<not> startswith ds ''0''"
    by (cases ds) (simp_all add: startswith_def)
  then have "parse_int ds = py_int 10 ds"
    using parse_int_dispatch [of ds] by blast
  with py_int_plain [OF assms(1,3) no_prefix_digits [OF assms(3)]] show ?thesis
    by simp
qed

lemma parse_int_examples:
  "parse_int ''0x1A'' = Inr 26" "parse_int ''017'' = Inr 15"
  "parse_int ''0'' = Inr 0" "parse_int ''42'' = Inr 42"
  by code_simp+

text \<open>
  Claim C7. The integer parser reads a literal with the prefix \<open>0x\<close> in base 16, any other
  literal with a leading \<open>0\<close> in base 8 and everything else in base 10: a non-empty string
  of hexadecimal digits after \<open>0x\<close>, a string of octal digits after \<open>0\<close> and a string of
  decimal digits that does not start with \<open>0\<close> and is within the interpreter's limit on
  decimal digits parse to their positional values; a longer string of decimal digits is read
  in base 10 all the same, and \<open>int\<close> refuses it with \<open>ValueError\<close>. The bare string \<open>0\<close>
  parses to zero, \<open>0x1A\<close> to 26, \<open>017\<close> to 15 and \<open>42\<close> to 42.
\<close>

theorem parse_int_bases:
  "(startswith x ''0x'' \<longrightarrow> parse_int x = py_int 16 (drop 2 x))
   \<and> (\<not> startswith x ''0x'' \<and> startswith x ''0'' \<longrightarrow> parse_int x = py_int 8 x)
   \<and> (\<not> startswith x ''0'' \<longrightarrow> parse_int x = py_int 10 x)
   \<and> (hs \<noteq> [] \<and> (\<forall>c\<in>set hs. is_digit 16 c)
        \<longrightarrow> parse_int (''0x'' @ hs) = Inr (int (numeral_value 16 hs)))
   \<and> ((\<forall>c\<in>set os. is_digit 8 c)
        \<longrightarrow> parse_int (''0'' @ os) = Inr (int (numeral_value 8 os)))
   \<and> (ds \<noteq> [] \<and> hd ds \<noteq> CHR ''0'' \<and> (\<forall>c\<in>set ds. is_digit 10 c)
        \<and> length ds \<le> int_max_str_digits
        \<longrightarrow> parse_int ds = Inr (int (numeral_value 10 ds)))
   \<and> (ls \<noteq> [] \<and> hd ls \<noteq> CHR ''0'' \<and> (\<forall>c\<in>set ls. is_digit 10 c)
        \<and> int_max_str_digits < length ls
        \<longrightarrow> parse_int ls = Inl ValueError)
   \<and> parse_int ''0x1A'' = Inr 26 \<and> parse_int ''017'' = Inr 15
   \<and> parse_int ''0'' = Inr 0 \<and> parse_int ''42'' = Inr 42"
proof -
  have "parse_int ds = Inr (int (numeral_value 10 ds))"
    if "ds \<noteq> []" "hd ds \<noteq> CHR ''0''" "\<forall>c\<in>set ds. is_digit 10 c" "length ds \<le> int_max_str_digits"
    using parse_int_dec [OF that(1-3)] that(4) by simp
  moreover have "parse_int ls = Inl ValueError"
    if "ls \<noteq> []" "hd ls \<noteq> CHR ''0''" "\<forall>c\<in>set ls. is_digit 10 c" "int_max_str_digits < length ls"
    using parse_int_dec [OF that(1-3)] that(4) by simp
  ultimately show ?thesis
    using parse_int_dispatch [of x] parse_int_hex [of hs] parse_int_oct [of os] parse_int_examples
    by blast
qed

text \<open>The hypotheses of C7 at concrete literals.\<close>

theorem parse_int_bases_witness:
  "startswith ''0x1A'' ''0x'' \<and> parse_int ''0x1A'' = py_int 16 ''1A''
   \<and> \<not> startswith ''017'' ''0x'' \<and> startswith ''017'' ''0'' \<and> parse_int ''017'' = py_int 8 ''017''
   \<and> \<not> startswith ''42'' ''0'' \<and> parse_int ''42'' = py_int 10 ''42''
   \<and> list_all (is_digit 16) ''fF'' \<and> parse_int ''0xfF'' = Inr 255
   \<and> list_all (is_digit 8) ''17'' \<and> parse_int ''017'' = Inr 15
   \<and> list_all (is_digit 10) ''907'' \<and> length ''907'' \<le> int_max_str_digits
   \<and> parse_int ''907'' = Inr 907
   \<and> list_all (is_digit 10) (replicate 4301 (CHR ''1''))
   \<and> int_max_str_digits < length (replicate 4301 (CHR ''1''))
   \<and> parse_int (replicate 4301 (CHR ''1'')) = Inl ValueError"
proof -
  let ?long = "replicate 4301 (CHR ''1'')"
  have s: "startswith ''0x1A'' ''0x''" "\<not> startswith ''017'' ''0x''" "startswith ''017'' ''0''"
    "\<not> startswith ''42'' ''0''"
    by (simp_all add: startswith_def)
  have l: "list_all (is_digit 16) ''fF''" "list_all (is_digit 8) ''17''"
    "list_all (is_digit 10) ''907''"
    by code_simp+
  then have d: "\<forall>c\<in>set ''fF''. is_digit 16 c" "\<forall>c\<in>set ''17''. is_digit 8 c"
    "\<forall>c\<in>set ''907''. is_digit 10 c"
    unfolding list_all_iff .
  have one: "is_digit 10 (CHR ''1'')" by code_simp
  then have dl: "\<forall>c\<in>set ?long. is_digit 10 c" by simp
  then have ll: "list_all (is_digit 10) ?long" unfolding list_all_iff .
  have v: "numeral_value 16 ''fF'' = 255" "numeral_value 8 ''17'' = 15"
    "numeral_value 10 ''907'' = 907"
    by code_simp+
  have n: "''fF'' \<noteq> []" "''907'' \<noteq> []" "hd ''907'' \<noteq> CHR ''0''"
    "length ''907'' \<le> int_max_str_digits"
    by (simp_all add: int_max_str_digits_def)
  have nl: "?long \<noteq> []" "hd ?long \<noteq> CHR ''0''" "int_max_str_digits < length ?long"
    by (simp_all add: int_max_str_digits_def)
  have a: "drop 2 ''0x1A'' = ''1A''" "''0x'' @ ''fF'' = ''0xfF''" "''0'' @ ''17'' = ''017''"
    by simp_all
  note t1 = parse_int_bases [of "''0x1A''" "''fF''" "''17''" "''907''" ?long]
  note t2 = parse_int_bases [of "''017''" "''fF''" "''17''" "''907''" ?long]
  note t3 = parse_int_bases [of "''42''" "''fF''" "''17''" "''907''" ?long]
  from t1 s(1) have r1: "parse_int ''0x1A'' = py_int 16 ''1A''" unfolding a by blast
  from t2 s(2,3) have r2: "parse_int ''017'' = py_int 8 ''017''" by blast
  from t3 s(4) have r3: "parse_int ''42'' = py_int 10 ''42''" by blast
  from t1 n(1) d(1) have r4: "parse_int ''0xfF'' = Inr 255" unfolding a v by simp
  from t1 d(2) have r5: "parse_int ''017'' = Inr 15" unfolding a v by simp
  from t1 n(2,3,4) d(3) have r6: "parse_int ''907'' = Inr 907" unfolding v by simp
  from t1 nl dl have r7: "parse_int ?long = Inl ValueError" by blast
  from s l n(4) ll nl(3) r1 r2 r3 r4 r5 r6 r7 show ?thesis by blast
qed

lemma map_of_names:
  "map_of (map (\<lambda>n. (n, f n)) xs) k = (if k \<in> set xs then Some (f k) else None)"
  by (induction xs) auto

lemma startswith_both:
  assumes "startswith s p" "startswith s q" "length q \<le> length p"
  shows "take (length q) p = q"
proof -
  from assms(1) have "take (length q) (take (length p) s) = take (length q) p"
    by (simp add: startswith_def)
  with assms(2,3) show ?thesis by (simp add: startswith_def min_def)
qed

lemma array_names_exclusive:
  assumes "(C, n) \<in> set ARRAY_FIELDS" "(D, m) \<in> set ARRAY_FIELDS"
    "startswith s n" "startswith s m"
  shows "n = m \<and> C = D"
proof -
  have *: "n = m" if "length m \<le> length n" "(C, n) \<in> set ARRAY_FIELDS"
    "(D, m) \<in> set ARRAY_FIELDS" "startswith s n" "startswith s m" for n m C D
  proof -
    have t: "take (length m) n = m" using startswith_both that by blast
    from that(2,3) show ?thesis
      unfolding ARRAY_FIELDS_def using t by (elim disjE | simp)+
  qed
  have nm: "n = m"
    using * [of m n C D] * [of n m D C] assms by (cases "length m \<le> length n") auto
  with assms(1,2) have "C = D"
    by (auto simp: ARRAY_FIELDS_def)
  with nm show ?thesis by simp
qed


lemma array_fields_cases:
  assumes m: "(C, n) \<in> set ARRAY_FIELDS"
  shows "(C = Accounts \<and> n = ''Accounts'') \<or> (C = ApplicationArgs \<and> n = ''ApplicationArgs'')
   \<or> (C = Applications \<and> n = ''Applications'') \<or> (C = Assets \<and> n = ''Assets'') \<or> (C = Logs \<and> n = ''Logs'')"
  using m by (simp add: ARRAY_FIELDS_def)

lemma parse_array_field:
  assumes m: "(C, n) \<in> set ARRAY_FIELDS" and p: "startswith tok n"
  shows "parse_transaction_field tok us = array_field C n tok us"
proof -
  have ex: "m = n" if "(D, m) \<in> set ARRAY_FIELDS" "startswith tok m" for D m
    using array_names_exclusive [OF m that(1) p that(2)] by simp
  have mem: "(Accounts, ''Accounts'') \<in> set ARRAY_FIELDS"
    "(ApplicationArgs, ''ApplicationArgs'') \<in> set ARRAY_FIELDS"
    "(Applications, ''Applications'') \<in> set ARRAY_FIELDS"
    "(Assets, ''Assets'') \<in> set ARRAY_FIELDS"
    "(Logs, ''Logs'') \<in> set ARRAY_FIELDS"
    by (simp_all add: ARRAY_FIELDS_def)
  have i1: "startswith tok ''Accounts'' \<longleftrightarrow> n = ''Accounts''"
    using ex [OF mem(1)] p by metis
  have i2: "startswith tok ''ApplicationArgs'' \<longleftrightarrow> n = ''ApplicationArgs''"
    using ex [OF mem(2)] p by metis
  have i3: "startswith tok ''Applications'' \<longleftrightarrow> n = ''Applications''"
    using ex [OF mem(3)] p by metis
  have i4: "startswith tok ''Assets'' \<longleftrightarrow> n = ''Assets''"
    using ex [OF mem(4)] p by metis
  have i5: "startswith tok ''Logs'' \<longleftrightarrow> n = ''Logs''"
    using ex [OF mem(5)] p by metis
  have pt: "parse_transaction_field tok us =
     (if n = ''Accounts'' then array_field Accounts ''Accounts'' tok us
      else if n = ''ApplicationArgs''
        then array_field ApplicationArgs ''ApplicationArgs'' tok us
      else if n = ''Applications''
        then array_field Applications ''Applications'' tok us
      else if n = ''Assets'' then array_field Assets ''Assets'' tok us
      else if n = ''Logs'' then array_field Logs ''Logs'' tok us
      else (case TX_FIELD_TXT_TO_OBJECT (replace_spaces tok) of
              None \<Rightarrow> Inl KeyError
            | Some f \<Rightarrow> Inr f))"
    unfolding parse_transaction_field_def i1 i2 i3 i4 i5 ..
  from array_fields_cases [OF m] show ?thesis
  proof (elim disjE conjE)
    assume "C = Accounts" "n = ''Accounts''"
    then show ?thesis unfolding pt by simp
  next
    assume "C = ApplicationArgs" "n = ''ApplicationArgs''"
    then show ?thesis unfolding pt by simp
  next
    assume "C = Applications" "n = ''Applications''"
    then show ?thesis unfolding pt by simp
  next
    assume "C = Assets" "n = ''Assets''"
    then show ?thesis unfolding pt by simp
  next
    assume "C = Logs" "n = ''Logs''"
    then show ?thesis unfolding pt by simp
  qed
qed

lemma parse_nullary_field:
  assumes "\<forall>(D, m)\<in>set ARRAY_FIELDS. \<not> startswith tok m"
  shows "parse_transaction_field tok us =
     (if replace_spaces tok \<in> set TX_FIELD_NAMES then Inr (Nullary (replace_spaces tok))
      else Inl KeyError)"
proof -
  from assms have "\<not> startswith tok ''Accounts''" "\<not> startswith tok ''ApplicationArgs''"
    "\<not> startswith tok ''Applications''" "\<not> startswith tok ''Assets''" "\<not> startswith tok ''Logs''"
    by (simp_all add: ARRAY_FIELDS_def)
  then show ?thesis
    by (simp add: parse_transaction_field_def TX_FIELD_TXT_TO_OBJECT_def map_of_names)
qed

text \<open>
  Claim C8. A token that starts with one of the five array-field names yields that array
  field, with the index -1 when \<open>use_stack\<close> is true and otherwise the integer parsed from
  the characters after the name and one separator. Every other token is looked up, with its
  spaces removed, in the table of nullary fields; a token that is not in the table fails with
  \<open>KeyError\<close>.
\<close>

theorem parse_transaction_field_cases:
  "((C, n) \<in> set ARRAY_FIELDS \<and> startswith tok n \<longrightarrow>
      parse_transaction_field tok True = Inr (C (- 1)) \<and>
      parse_transaction_field tok False =
        (case parse_int (drop (length n + 1) tok) of Inl e \<Rightarrow> Inl e | Inr i \<Rightarrow> Inr (C i)))
   \<and> ((\<forall>(D, m)\<in>set ARRAY_FIELDS. \<not> startswith tok' m) \<longrightarrow>
        parse_transaction_field tok' us =
          (if replace_spaces tok' \<in> set TX_FIELD_NAMES
           then Inr (Nullary (replace_spaces tok')) else Inl KeyError))"
  using parse_array_field [of C n tok] parse_nullary_field [of tok' us]
  by (simp add: array_field_def)

text \<open>The hypotheses of C8 at concrete tokens.\<close>

theorem parse_transaction_field_cases_witness:
  "(Applications, ''Applications'') \<in> set ARRAY_FIELDS \<and> startswith ''Applications 0x10'' ''Applications''
   \<and> parse_transaction_field ''Applications 0x10'' True = Inr (Applications (- 1))
   \<and> parse_transaction_field ''Applications 0x10'' False = Inr (Applications 16)
   \<and> list_all (\<lambda>(D, m). \<not> startswith ''Type Enum'' m) ARRAY_FIELDS
   \<and> parse_transaction_field ''Type Enum'' False = Inr (Nullary ''TypeEnum'')
   \<and> list_all (\<lambda>(D, m). \<not> startswith ''Foo'' m) ARRAY_FIELDS
   \<and> parse_transaction_field ''Foo'' True = Inl KeyError"
proof -
  have a1: "(Applications, ''Applications'') \<in> set ARRAY_FIELDS"
    by (simp add: ARRAY_FIELDS_def)
  have a2: "startswith ''Applications 0x10'' ''Applications''"
    by (simp add: startswith_def)
  have l: "list_all (\<lambda>(D, m). \<not> startswith ''Type Enum'' m) ARRAY_FIELDS"
    "list_all (\<lambda>(D, m). \<not> startswith ''Foo'' m) ARRAY_FIELDS"
    by (simp_all add: ARRAY_FIELDS_def startswith_def)
  then have a3: "\<forall>(D, m)\<in>set ARRAY_FIELDS. \<not> startswith ''Type Enum'' m"
    and a4: "\<forall>(D, m)\<in>set ARRAY_FIELDS. \<not> startswith ''Foo'' m"
    unfolding list_all_iff .
  have b: "parse_int (drop (length ''Applications'' + 1) ''Applications 0x10'') = Inr 16"
    by code_simp
  have c1: "replace_spaces ''Type Enum'' = ''TypeEnum''" "replace_spaces ''Foo'' = ''Foo''"
    by (simp_all add: replace_spaces_def)
  have c2: "''TypeEnum'' \<in> set TX_FIELD_NAMES" "''Foo'' \<notin> set TX_FIELD_NAMES"
    by code_simp+
  from parse_transaction_field_cases [of Applications "''Applications''" "''Applications 0x10''"
        "''Type Enum''" False] a1 a2 a3
  have "parse_transaction_field ''Applications 0x10'' True = Inr (Applications (- 1))"
    and "parse_transaction_field ''Applications 0x10'' False =
        (case parse_int (drop (length ''Applications'' + 1) ''Applications 0x10'') of
           Inl e \<Rightarrow> Inl e | Inr i \<Rightarrow> Inr (Applications i))"
    and "parse_transaction_field ''Type Enum'' False =
          (if replace_spaces ''Type Enum'' \<in> set TX_FIELD_NAMES
           then Inr (Nullary (replace_spaces ''Type Enum'')) else Inl KeyError)"
    by blast+
  then have r1: "parse_transaction_field ''Applications 0x10'' True = Inr (Applications (- 1))"
    and r2: "parse_transaction_field ''Applications 0x10'' False = Inr (Applications 16)"
    and r3: "parse_transaction_field ''Type Enum'' False = Inr (Nullary ''TypeEnum'')"
    unfolding b c1 using c2 by simp_all
  from parse_transaction_field_cases [of Applications "''Applications''" "''Applications 0x10''"
        "''Foo''" True] a4
  have "parse_transaction_field ''Foo'' True =
          (if replace_spaces ''Foo'' \<in> set TX_FIELD_NAMES
           then Inr (Nullary (replace_spaces ''Foo'')) else Inl KeyError)"
    by blast
  then have r4: "parse_transaction_field ''Foo'' True = Inl KeyError"
    unfolding c1 using c2 by simp
  from a1 a2 l r1 r2 r3 r4 show ?thesis by blast
qed

text \<open>
  Claim C1. The JSON object has the fields \<open>success\<close>, \<open>error\<close> and \<open>result\<close>, and the
  claim asks that \<open>success\<close> be true exactly when \<open>error\<close> is null. The code computes
  \<open>success\<close> as \<open>error is not None\<close>: a run without error is reported with
  \<open>success = False\<close>, and a run with an error with \<open>success = True\<close>.
\<close>

theorem handle_output_success_flag:
  "handle_output to_json \<lparr>json = Some ''-'', dest = ''.'', all_paths_in_one = False\<rparr> [] None
     = PrintJson \<lparr>success = False, error = None, result = []\<rparr>
   \<and> handle_output to_json \<lparr>json = Some ''-'', dest = ''.'', all_paths_in_one = False\<rparr> []
       (Some ''Error: x is not a detector'')
     = PrintJson \<lparr>success = True, error = Some ''Error: x is not a detector'', result = []\<rparr>"
  by (simp add: handle_output_def)


section \<open>The version check\<close>

lemma verify_ins_stderr_mono:
  "set (vv_stderr st) \<subseteq> set (vv_stderr (verify_ins pv ins st))"
  by (auto simp: verify_ins_def Let_def split: option.splits)

lemma verify_fold_stderr_mono:
  "set (vv_stderr st) \<subseteq> set (vv_stderr (fold (verify_ins pv) xs st))"
proof (induction xs arbitrary: st)
  case Nil
  then show ?case by simp
next
  case (Cons x xs)
  from verify_ins_stderr_mono [of st pv x] Cons.IH [of "verify_ins pv x st"]
  show ?case by auto
qed

lemma verify_ins_field:
  assumes "\<not> pv < ins_version ins" "ins_field ins = Some f" "is_versioned_field (fld_class f)"
    "pv < fld_version f"
  shows "FieldNotSupported (ins_line ins) (fld_class f) pv (fld_version f)
           \<in> set (vv_stderr (verify_ins pv ins st))"
  using assms by (simp add: verify_ins_def Let_def)

lemma verify_fold_field:
  assumes "ins \<in> set xs" "\<not> pv < ins_version ins" "ins_field ins = Some f"
    "is_versioned_field (fld_class f)" "pv < fld_version f"
  shows "FieldNotSupported (ins_line ins) (fld_class f) pv (fld_version f)
           \<in> set (vv_stderr (fold (verify_ins pv) xs st))"
  using assms(1)
proof (induction xs arbitrary: st)
  case Nil
  then show ?case by simp
next
  case (Cons x xs)
  show ?case
  proof (cases "ins = x")
    case True
    from verify_ins_field [OF assms(2-5), of st]
      verify_fold_stderr_mono [of "verify_ins pv ins st" pv xs] True
    show ?thesis by auto
  next
    case False
    with Cons.prems have "ins \<in> set xs" by simp
    from Cons.IH [OF this, of "verify_ins pv x st"] show ?thesis by simp
  qed
qed

text \<open>
  Claim C2, as amended. For every instruction whose own minimum version is supported by the
  program version and that carries a transaction, asset-holding, asset-params, app-params or
  account-params field whose minimum version exceeds the program version, the version check
  prints a diagnostic for that field.
\<close>

theorem verify_version_field_diagnostic:
  assumes "ins \<in> set ins_list" "\<not> program_version < ins_version ins" "ins_field ins = Some f"
    "is_versioned_field (fld_class f)" "program_version < fld_version f"
  shows "FieldNotSupported (ins_line ins) (fld_class f) program_version (fld_version f)
           \<in> set (snd (verify_version ins_list program_version))"
  using verify_fold_field [OF assms] by (simp add: verify_version_def Let_def)

text \<open>The hypotheses of C2 at \<open>txn LastLog\<close> in a version 3 program.\<close>

theorem verify_version_field_diagnostic_witness:
  "example_txn \<in> set [example_txn] \<and> \<not> 3 < ins_version example_txn
   \<and> ins_field example_txn = Some \<lparr>fld_class = TransactionField (Nullary ''LastLog''), fld_version = 6\<rparr>
   \<and> is_versioned_field (TransactionField (Nullary ''LastLog''))
   \<and> FieldNotSupported 2 (TransactionField (Nullary ''LastLog'')) 3 6
        \<in> set (snd (verify_version [example_txn] 3))"
proof -
  have a: "example_txn \<in> set [example_txn]" "\<not> 3 < ins_version example_txn"
    "ins_field example_txn = Some \<lparr>fld_class = TransactionField (Nullary ''LastLog''), fld_version = 6\<rparr>"
    "is_versioned_field (fld_class \<lparr>fld_class = TransactionField (Nullary ''LastLog''), fld_version = 6\<rparr>)"
    "3 < fld_version \<lparr>fld_class = TransactionField (Nullary ''LastLog''), fld_version = 6\<rparr>"
    "ins_line example_txn = 2"
    by (simp_all add: example_txn_def Instruction_def is_versioned_field_def)
  from verify_version_field_diagnostic [OF a(1-5)] a show ?thesis by simp
qed

text \<open>
  Claim C2 as stated fails: the field is checked only in the branch where the instruction
  itself is supported. For \<open>itxn LastLog\<close> (instruction from version 5, field from version 6)
  in a version 3 program only the diagnostic for the instruction is printed.
\<close>

theorem verify_version_field_counterexample:
  "ins_field example_itxn = Some \<lparr>fld_class = TransactionField (Nullary ''LastLog''), fld_version = 6\<rparr>
   \<and> is_versioned_field (TransactionField (Nullary ''LastLog''))
   \<and> 3 < ins_version example_itxn
   \<and> verify_version [example_itxn] 3 = (True, [InsNotSupported 2 3 5])
   \<and> FieldNotSupported 2 (TransactionField (Nullary ''LastLog'')) 3 6
        \<notin> set (snd (verify_version [example_itxn] 3))"
  by (simp add: example_itxn_def Instruction_def is_versioned_field_def verify_version_def
      verify_ins_def Let_def)

section \<open>The first pass\<close>

lemma add_instruction_comments_simps [simp]:
  "kind (add_instruction_comments sel ins) = kind ins"
  "ins_next (add_instruction_comments sel ins) = ins_next ins"
  "ins_prev (add_instruction_comments sel ins) = ins_prev ins"
  "ins_line (add_instruction_comments sel ins) = ins_line ins"
  by (simp_all add: add_instruction_comments_def split: ins_kind.splits)

lemma add_parsed_fields [simp]:
  "fp_idx (add_parsed sel st ins0) = fp_idx st"
  "fp_prev (add_parsed sel st ins0) =
     (if is_exit (kind ins0) then None else Some (length (fp_instructions st)))"
  "fp_labels (add_parsed sel st ins0) =
     (case kind ins0 of Label l \<Rightarrow> (fp_labels st)(l \<mapsto> length (fp_instructions st)) | _ \<Rightarrow> fp_labels st)"
  by (simp_all add: add_parsed_def Let_def)

lemma add_parsed_instructions_None:
  "fp_prev st = None \<Longrightarrow>
   fp_instructions (add_parsed sel st ins0) =
     fp_instructions st @ [add_instruction_comments sel (ins0\<lparr>ins_line := fp_idx st\<rparr>)]"
  by (simp add: add_parsed_def Let_def)

lemma add_parsed_instructions_Some:
  "fp_prev st = Some q \<Longrightarrow> q < length (fp_instructions st) \<Longrightarrow>
   fp_instructions (add_parsed sel st ins0) =
     (fp_instructions st)[q := (fp_instructions st ! q)
         \<lparr>ins_next := ins_next (fp_instructions st ! q) @ [length (fp_instructions st)]\<rparr>]
       @ [(add_instruction_comments sel (ins0\<lparr>ins_line := fp_idx st\<rparr>))
            \<lparr>ins_prev := ins_prev ins0 @ [q]\<rparr>]"
  by (simp add: add_parsed_def Let_def ins_add_next_def ins_add_prev_def list_update_append
      nth_append)

lemma last_label_idx_snoc:
  "last_label_idx (ks @ [k]) l = (if k = Label l then Some (length ks) else last_label_idx ks l)"
proof -
  have "filter (\<lambda>j. (ks @ [k]) ! j = Label l) (rev [0..<length ks])
          = filter (\<lambda>j. ks ! j = Label l) (rev [0..<length ks])"
    by (rule filter_cong) (auto simp: nth_append)
  then show ?thesis by (simp add: last_label_idx_def)
qed

lemma default_edges_snoc_None:
  assumes d: "default_edges ins" and e: "ins = [] \<or> is_exit (kind (last ins))"
    and x: "ins_next x = []" "ins_prev x = []"
  shows "default_edges (ins @ [x])"
  unfolding default_edges_def
proof (intro allI impI)
  fix i assume i: "i < length (ins @ [x])"
  show "ins_next ((ins @ [x]) ! i) =
          (if \<not> is_exit (kind ((ins @ [x]) ! i)) \<and> Suc i < length (ins @ [x]) then [Suc i] else []) \<and>
        ins_prev ((ins @ [x]) ! i) =
          (if 0 < i \<and> \<not> is_exit (kind ((ins @ [x]) ! (i - 1))) then [i - 1] else [])"
  proof (cases "i < length ins")
    case True
    with d have n: "ins_next (ins ! i) =
          (if \<not> is_exit (kind (ins ! i)) \<and> Suc i < length ins then [Suc i] else [])"
      and p: "ins_prev (ins ! i) = (if 0 < i \<and> \<not> is_exit (kind (ins ! (i - 1))) then [i - 1] else [])"
      by (simp_all add: default_edges_def)
    have l: "is_exit (kind (ins ! i))" if "Suc i = length ins"
      using e that True by (cases ins rule: rev_cases) (auto simp: nth_append)
    from True have "i - 1 < length ins" by simp
    with True n p l show ?thesis
      by (auto simp: nth_append)
  next
    case False
    with i have ii: "i = length ins" by simp
    have "ins = [] \<or> (0 < length ins \<and> is_exit (kind (ins ! (length ins - 1))))"
      using e by (cases "ins = []") (simp_all add: last_conv_nth)
    with ii x show ?thesis
      by (auto simp: nth_append)
  qed
qed

lemma default_edges_snoc_Some:
  assumes d: "default_edges ins" and e: "ins \<noteq> []" "\<not> is_exit (kind (last ins))"
    and x: "ins_next x = []" "ins_prev x = [length ins - 1]"
  shows "default_edges
           (ins[length ins - 1 := (ins ! (length ins - 1))
                  \<lparr>ins_next := ins_next (ins ! (length ins - 1)) @ [length ins]\<rparr>] @ [x])"
    (is "default_edges ?ins'")
  unfolding default_edges_def
proof (intro allI impI)
  fix i assume i: "i < length ?ins'"
  have k: "kind (?ins' ! j) = kind ((ins @ [x]) ! j)" for j
    by (cases "j < length ins") (auto simp: nth_append nth_list_update)
  from e have lk: "\<not> is_exit (kind (ins ! (length ins - 1)))"
    by (simp add: last_conv_nth)
  have "ins_next (?ins' ! i) =
          (if \<not> is_exit (kind ((ins @ [x]) ! i)) \<and> Suc i < length ?ins' then [Suc i] else []) \<and>
        ins_prev (?ins' ! i) =
          (if 0 < i \<and> \<not> is_exit (kind ((ins @ [x]) ! (i - 1))) then [i - 1] else [])"
  proof (cases "i < length ins")
    case True
    with d have n: "ins_next (ins ! i) =
          (if \<not> is_exit (kind (ins ! i)) \<and> Suc i < length ins then [Suc i] else [])"
      and p: "ins_prev (ins ! i) = (if 0 < i \<and> \<not> is_exit (kind (ins ! (i - 1))) then [i - 1] else [])"
      by (simp_all add: default_edges_def)
    from True have i1: "i - 1 < length ins" by simp
    then have k1: "kind ((ins @ [x]) ! (i - 1)) = kind (ins ! (i - 1))"
      and k0: "kind ((ins @ [x]) ! i) = kind (ins ! i)"
      using True by (simp_all add: nth_append)
    show ?thesis
    proof (cases "Suc i = length ins")
      case l: True
      then have il: "length ins - 1 = i" by simp
      have "?ins' ! i = (ins ! i)\<lparr>ins_next := ins_next (ins ! i) @ [length ins]\<rparr>"
        using True unfolding il by (simp add: nth_append)
      moreover from n l have "ins_next (ins ! i) = []" by simp
      moreover from lk il have "\<not> is_exit (kind (ins ! i))" by simp
      ultimately show ?thesis
        unfolding k1 k0 using p l by simp
    next
      case l: False
      with True have "i \<noteq> length ins - 1" "Suc i < length ins" by simp_all
      then have "?ins' ! i = ins ! i"
        using True by (simp add: nth_append)
      then show ?thesis
        unfolding k1 k0 using n p \<open>Suc i < length ins\<close> by simp
    qed
  next
    case False
    with i have ii: "i = length ins" by simp
    from e have "0 < length ins" by simp
    with ii x lk show ?thesis
      by (auto simp: nth_append)
  qed
  then show "ins_next (?ins' ! i) =
          (if \<not> is_exit (kind (?ins' ! i)) \<and> Suc i < length ?ins' then [Suc i] else []) \<and>
        ins_prev (?ins' ! i) =
          (if 0 < i \<and> \<not> is_exit (kind (?ins' ! (i - 1))) then [i - 1] else [])"
    unfolding k .
qed


lemma add_parsed_kinds:
  assumes "fp_prev st = None \<or> (\<exists>q. fp_prev st = Some q \<and> q < length (fp_instructions st))"
  shows "map kind (fp_instructions (add_parsed sel st ins0))
           = map kind (fp_instructions st) @ [kind ins0]"
  using assms
  by (auto simp: add_parsed_instructions_None add_parsed_instructions_Some map_update
      list_update_same_conv)

lemma add_parsed_inv:
  assumes inv: "fp_inv st" and x: "ins_next ins0 = []" "ins_prev ins0 = []"
  shows "fp_inv (add_parsed sel st ins0)"
proof -
  let ?ins = "fp_instructions st"
  let ?ins1 = "add_instruction_comments sel (ins0\<lparr>ins_line := fp_idx st\<rparr>)"
  from inv have d: "default_edges ?ins"
    and p: "fp_prev st = (if ?ins = [] \<or> is_exit (kind (last ?ins)) then None
                          else Some (length ?ins - 1))"
    and l: "\<And>l. fp_labels st l = last_label_idx (map kind ?ins) l"
    by (simp_all add: fp_inv_def)
  have pq: "fp_prev st = None \<or> (\<exists>q. fp_prev st = Some q \<and> q < length ?ins)"
    using p by (cases "?ins = []") auto
  note ks = add_parsed_kinds [OF pq, of sel ins0]
  have len: "length (fp_instructions (add_parsed sel st ins0)) = Suc (length ?ins)"
    using arg_cong [OF ks, of length] by simp
  then have ne: "fp_instructions (add_parsed sel st ins0) \<noteq> []" by auto
  have "kind (last (fp_instructions (add_parsed sel st ins0)))
          = last (map kind (fp_instructions (add_parsed sel st ins0)))"
    using ne by (simp add: last_map)
  then have lastk: "kind (last (fp_instructions (add_parsed sel st ins0))) = kind ins0"
    unfolding ks by simp
  have labels: "fp_labels (add_parsed sel st ins0) l
                  = last_label_idx (map kind (fp_instructions (add_parsed sel st ins0))) l" for l
    unfolding ks last_label_idx_snoc using l by (auto split: ins_kind.splits)
  have prev: "fp_prev (add_parsed sel st ins0) =
      (if fp_instructions (add_parsed sel st ins0) = []
          \<or> is_exit (kind (last (fp_instructions (add_parsed sel st ins0)))) then None
       else Some (length (fp_instructions (add_parsed sel st ins0)) - 1))"
    unfolding lastk len using ne by simp
  have edges: "default_edges (fp_instructions (add_parsed sel st ins0))"
  proof (cases "?ins = [] \<or> is_exit (kind (last ?ins))")
    case True
    with p have "fp_prev st = None" by simp
    then have "fp_instructions (add_parsed sel st ins0) = ?ins @ [?ins1]"
      by (rule add_parsed_instructions_None)
    moreover have "default_edges (?ins @ [?ins1])"
      using d True x by (intro default_edges_snoc_None) simp_all
    ultimately show ?thesis by simp
  next
    case False
    with p have q: "fp_prev st = Some (length ?ins - 1)" "length ?ins - 1 < length ?ins"
      by simp_all
    have "default_edges
           (?ins[length ?ins - 1 := (?ins ! (length ?ins - 1))
                  \<lparr>ins_next := ins_next (?ins ! (length ?ins - 1)) @ [length ?ins]\<rparr>]
              @ [?ins1\<lparr>ins_prev := ins_prev ins0 @ [length ?ins - 1]\<rparr>])"
      using d False x by (intro default_edges_snoc_Some) simp_all
    then show ?thesis
      unfolding add_parsed_instructions_Some [OF q] .
  qed
  from edges prev labels show ?thesis
    unfolding fp_inv_def by blast
qed

lemma fp_inv_upd [simp]:
  "fp_inv (st\<lparr>fp_idx := a\<rparr>) = fp_inv st"
  "fp_inv (st\<lparr>fp_instruction_comments := b\<rparr>) = fp_inv st"
  by (simp_all add: fp_inv_def)

lemma Instruction_edges [simp]:
  "ins_next (Instruction p) = []" "ins_prev (Instruction p) = []" "kind (Instruction p) = p_kind p"
  by (simp_all add: Instruction_def)

lemma first_pass_step_inv:
  assumes "fp_inv st" "first_pass_step pl sel st line = Inr st'"
  shows "fp_inv st'"
proof (cases "is_comment line")
  case True
  with assms show ?thesis by (auto simp: first_pass_step_def)
next
  case False
  show ?thesis
  proof (cases "pl line")
    case (Inl e)
    with False assms show ?thesis by (cases e) (simp_all add: first_pass_step_def)
  next
    case (Inr r)
    show ?thesis
    proof (cases r)
      case None
      with False Inr assms show ?thesis by (auto simp: first_pass_step_def)
    next
      case (Some p)
      let ?st = "st\<lparr>fp_instruction_comments := [], fp_idx := fp_idx st + 1\<rparr>"
      have i: "fp_inv ?st" using assms(1) by simp
      from False Inr Some assms(2)
      have "st' = add_parsed sel ?st (Instruction p) \<or>
            st' = add_parsed sel ?st ((Instruction p)\<lparr>comments_before_ins := fp_instruction_comments st\<rparr>)"
        by (auto simp: first_pass_step_def Let_def split: if_splits)
      then show ?thesis
        using add_parsed_inv [OF i, of "Instruction p" sel]
          add_parsed_inv [OF i, of "(Instruction p)\<lparr>comments_before_ins := fp_instruction_comments st\<rparr>" sel]
        by auto
    qed
  qed
qed

lemma first_pass_loop_inv:
  "fp_inv st \<Longrightarrow> first_pass_loop pl sel st lines = Inr st' \<Longrightarrow> fp_inv st'"
proof (induction lines arbitrary: st)
  case Nil
  then show ?case by simp
next
  case (Cons line lines)
  then show ?case
    by (auto split: sum.splits dest: first_pass_step_inv)
qed

lemma fp_inv_init: "fp_inv fp_init"
  by (simp add: fp_inv_def fp_init_def default_edges_def last_label_idx_def)

lemma first_pass_inv: "first_pass pl sel lines = Inr st \<Longrightarrow> fp_inv st"
  unfolding first_pass_def using first_pass_loop_inv [OF fp_inv_init] .

lemma is_exit_iff: "is_exit k \<longleftrightarrow> k \<in> range B \<union> {Err, Return, Retsub}"
  by (cases k) (auto simp: is_exit_def)

text \<open>
  Claim C3. After the first pass, two consecutive parsed instructions \<open>i\<close> and \<open>i + 1\<close> are
  joined by a default edge in both directions (\<open>i + 1\<close> is the successor of \<open>i\<close>, and \<open>i\<close>
  the predecessor of \<open>i + 1\<close>) unless the first is \<open>B\<close>, \<open>Err\<close>, \<open>Return\<close> or \<open>Retsub\<close>, in
  which case there is none; a \<open>Callsub\<close> has the edge to the instruction after it.
\<close>

theorem first_pass_default_edges:
  assumes "first_pass pl sel lines = Inr st" and "Suc i < length (fp_instructions st)"
  shows "(kind (fp_instructions st ! i) \<notin> range B \<union> {Err, Return, Retsub} \<longrightarrow>
            ins_next (fp_instructions st ! i) = [Suc i] \<and>
            ins_prev (fp_instructions st ! Suc i) = [i])
       \<and> (kind (fp_instructions st ! i) \<in> range B \<union> {Err, Return, Retsub} \<longrightarrow>
            ins_next (fp_instructions st ! i) = [] \<and>
            ins_prev (fp_instructions st ! Suc i) = [])
       \<and> (kind (fp_instructions st ! i) \<in> range Callsub \<longrightarrow>
            Suc i \<in> set (ins_next (fp_instructions st ! i)) \<and>
            i \<in> set (ins_prev (fp_instructions st ! Suc i)))"
proof -
  from first_pass_inv [OF assms(1)] have d: "default_edges (fp_instructions st)"
    by (simp add: fp_inv_def)
  from assms(2) have i: "i < length (fp_instructions st)" by simp
  from d i assms(2)
  have n: "ins_next (fp_instructions st ! i) =
             (if \<not> is_exit (kind (fp_instructions st ! i)) then [Suc i] else [])"
    unfolding default_edges_def by simp
  from d assms(2)
  have "ins_prev (fp_instructions st ! Suc i) =
             (if 0 < Suc i \<and> \<not> is_exit (kind (fp_instructions st ! (Suc i - 1))) then [Suc i - 1] else [])"
    unfolding default_edges_def by blast
  then have p: "ins_prev (fp_instructions st ! Suc i) =
             (if \<not> is_exit (kind (fp_instructions st ! i)) then [i] else [])"
    by simp
  have c: "\<not> is_exit k" if "k \<in> range Callsub" for k
    using that by (auto simp: is_exit_def)
  from n p c show ?thesis
    unfolding is_exit_iff [symmetric] by auto
qed

text \<open>The hypotheses of C3 on the example program, at the \<open>callsub\<close> and at the \<open>return\<close>.\<close>

theorem first_pass_default_edges_witness:
  "\<not> isl (first_pass example_parse_line example_selector example_program)
   \<and> map kind (fp_instructions (projr (first_pass example_parse_line example_selector example_program)))
       = [Pragma 7, Callsub ''s'', Other ''int 1'', Return, Label ''s'', Retsub]
   \<and> ins_next (fp_instructions (projr (first_pass example_parse_line example_selector example_program)) ! 1) = [2]
   \<and> ins_prev (fp_instructions (projr (first_pass example_parse_line example_selector example_program)) ! 2) = [1]
   \<and> ins_next (fp_instructions (projr (first_pass example_parse_line example_selector example_program)) ! 3) = []
   \<and> ins_prev (fp_instructions (projr (first_pass example_parse_line example_selector example_program)) ! 4) = []"
proof -
  let ?r = "first_pass example_parse_line example_selector example_program"
  let ?ins = "fp_instructions (projr ?r)"
  have r: "\<not> isl ?r" by code_simp
  then have e: "?r = Inr (projr ?r)" by simp
  have k: "map kind ?ins = [Pragma 7, Callsub ''s'', Other ''int 1'', Return, Label ''s'', Retsub]"
    by code_simp
  from arg_cong [OF k, of length] have len: "length ?ins = 6" by simp
  have k1: "kind (?ins ! 1) = Callsub ''s''" and k3: "kind (?ins ! 3) = Return"
    using arg_cong [OF k, of "\<lambda>ks. ks ! 1"] arg_cong [OF k, of "\<lambda>ks. ks ! 3"] len
    by simp_all
  from first_pass_default_edges [OF e, of 1] len k1
  have a: "ins_next (?ins ! 1) = [2]" "ins_prev (?ins ! 2) = [1]"
    by (auto simp: numeral_2_eq_2)
  from first_pass_default_edges [OF e, of 3] len k3
  have b: "ins_next (?ins ! 3) = []" "ins_prev (?ins ! 4) = []"
    by (auto simp: eval_nat_numeral)
  from r k a b show ?thesis by blast
qed

lemma first_pass_step_ok:
  assumes "is_comment l \<or> \<not> isl (pl l)"
  shows "\<exists>st'. first_pass_step pl sel st l = Inr st' \<and> fp_idx st' = fp_idx st + 1"
proof (cases "is_comment l")
  case True
  then show ?thesis by (simp add: first_pass_step_def)
next
  case False
  with assms obtain r where "pl l = Inr r" by (cases "pl l") auto
  with False show ?thesis
    by (cases r) (simp_all add: first_pass_step_def Let_def)
qed





section \<open>The second pass and duplicate labels\<close>

lemma link_length [simp]:
  "length (ins_add_prev (ins_add_next ins i j) j i) = length ins"
  by (simp add: ins_add_prev_def ins_add_next_def)

lemma nth_list_update_total:
  "xs[i := x] ! k = (if k = i \<and> i < length xs then x else xs ! k)"
  by (cases "i < length xs") (auto simp: nth_list_update list_update_beyond)

lemma link_kind [simp]:
  "kind (ins_add_prev (ins_add_next ins i j) j i ! k) = kind (ins ! k)"
  by (simp add: ins_add_prev_def ins_add_next_def nth_list_update_total)

lemma link_next:
  "ins_next (ins_add_prev (ins_add_next ins i j) j i ! k) =
     (if k = i \<and> i < length ins then ins_next (ins ! i) @ [j] else ins_next (ins ! k))"
  by (simp add: ins_add_prev_def ins_add_next_def nth_list_update_total)

lemma link_prev:
  "ins_prev (ins_add_prev (ins_add_next ins i j) j i ! k) =
     (if k = j \<and> j < length ins then ins_prev (ins ! j) @ [i] else ins_prev (ins ! k))"
  by (simp add: ins_add_prev_def ins_add_next_def nth_list_update_total)

lemma link_labels_length:
  "link_labels labels i ls ins = Inr ins' \<Longrightarrow> length ins' = length ins"
  by (induction ls arbitrary: ins) (auto split: option.splits)

lemma link_labels_kind:
  "link_labels labels i ls ins = Inr ins' \<Longrightarrow> kind (ins' ! k) = kind (ins ! k)"
  by (induction ls arbitrary: ins) (auto split: option.splits)

lemma link_labels_next:
  "link_labels labels i ls ins = Inr ins' \<Longrightarrow>
     ins_next (ins' ! k) =
       (if k = i \<and> i < length ins then ins_next (ins ! i) @ map (\<lambda>l. the (labels l)) ls
        else ins_next (ins ! k))"
proof (induction ls arbitrary: ins)
  case Nil
  then show ?case by simp
next
  case (Cons l ls)
  then obtain j where j: "labels l = Some j"
    and r: "link_labels labels i ls (ins_add_prev (ins_add_next ins i j) j i) = Inr ins'"
    by (auto split: option.splits)
  from Cons.IH [OF r] show ?case
    by (simp add: link_next j)
qed

lemma link_labels_prev_mono:
  "link_labels labels i ls ins = Inr ins' \<Longrightarrow> set (ins_prev (ins ! k)) \<subseteq> set (ins_prev (ins' ! k))"
proof (induction ls arbitrary: ins)
  case Nil
  then show ?case by simp
next
  case (Cons l ls)
  then obtain j where j: "labels l = Some j"
    and r: "link_labels labels i ls (ins_add_prev (ins_add_next ins i j) j i) = Inr ins'"
    by (auto split: option.splits)
  from Cons.IH [OF r] show ?case
    by (auto simp: link_prev split: if_splits)
qed

lemma link_labels_prev:
  "link_labels labels i ls ins = Inr ins' \<Longrightarrow> l \<in> set ls \<Longrightarrow>
     \<exists>j. labels l = Some j \<and> (j < length ins \<longrightarrow> i \<in> set (ins_prev (ins' ! j)))"
proof (induction ls arbitrary: ins)
  case Nil
  then show ?case by simp
next
  case (Cons l' ls)
  then obtain j where j: "labels l' = Some j"
    and r: "link_labels labels i ls (ins_add_prev (ins_add_next ins i j) j i) = Inr ins'"
    by (auto split: option.splits)
  show ?case
  proof (cases "l = l'")
    case True
    have "j < length ins \<Longrightarrow> i \<in> set (ins_prev (ins_add_prev (ins_add_next ins i j) j i ! j))"
      by (simp add: link_prev)
    with link_labels_prev_mono [OF r, of j] j True show ?thesis by auto
  next
    case False
    with Cons.prems have "l \<in> set ls" by simp
    from Cons.IH [OF r this] show ?thesis by simp
  qed
qed

lemma second_pass_loop_length:
  "second_pass_loop labels is ins = Inr ins' \<Longrightarrow> length ins' = length ins"
  by (induction "is" arbitrary: ins) (auto split: sum.splits dest: link_labels_length)

lemma second_pass_loop_kind:
  "second_pass_loop labels is ins = Inr ins' \<Longrightarrow> kind (ins' ! k) = kind (ins ! k)"
proof (induction "is" arbitrary: ins)
  case Nil
  then show ?case by simp
next
  case (Cons i "is")
  then obtain ins1 where a: "link_labels labels i (jump_labels (kind (ins ! i))) ins = Inr ins1"
    and r: "second_pass_loop labels is ins1 = Inr ins'"
    by (auto split: sum.splits)
  from Cons.IH [OF r] link_labels_kind [OF a, of k] show ?case by simp
qed

lemma second_pass_loop_prev_mono:
  "second_pass_loop labels is ins = Inr ins' \<Longrightarrow> set (ins_prev (ins ! k)) \<subseteq> set (ins_prev (ins' ! k))"
proof (induction "is" arbitrary: ins)
  case Nil
  then show ?case by simp
next
  case (Cons i "is")
  then obtain ins1 where a: "link_labels labels i (jump_labels (kind (ins ! i))) ins = Inr ins1"
    and r: "second_pass_loop labels is ins1 = Inr ins'"
    by (auto split: sum.splits)
  from Cons.IH [OF r] link_labels_prev_mono [OF a, of k] show ?case by blast
qed

lemma second_pass_loop_next:
  assumes "second_pass_loop labels is ins = Inr ins'" "distinct is" "\<forall>i\<in>set is. i < length ins"
  shows "ins_next (ins' ! k) =
           (if k \<in> set is then ins_next (ins ! k) @ map (\<lambda>l. the (labels l)) (jump_labels (kind (ins ! k)))
            else ins_next (ins ! k))"
  using assms
proof (induction "is" arbitrary: ins)
  case Nil
  then show ?case by simp
next
  case (Cons i "is")
  then obtain ins1 where a: "link_labels labels i (jump_labels (kind (ins ! i))) ins = Inr ins1"
    and r: "second_pass_loop labels is ins1 = Inr ins'"
    by (auto split: sum.splits)
  from Cons.prems link_labels_length [OF a]
  have d: "distinct is" "\<forall>i\<in>set is. i < length ins1" "i \<notin> set is" "i < length ins"
    by simp_all
  from Cons.IH [OF r d(1,2)] link_labels_next [OF a, of k] link_labels_kind [OF a, of k] d(3,4)
  show ?case by auto
qed

lemma second_pass_loop_prev:
  assumes "second_pass_loop labels is ins = Inr ins'" "i \<in> set is"
    "l \<in> set (jump_labels (kind (ins ! i)))"
  shows "\<exists>j. labels l = Some j \<and> (j < length ins \<longrightarrow> i \<in> set (ins_prev (ins' ! j)))"
  using assms
proof (induction "is" arbitrary: ins)
  case Nil
  then show ?case by simp
next
  case (Cons i' "is")
  then obtain ins1 where a: "link_labels labels i' (jump_labels (kind (ins ! i'))) ins = Inr ins1"
    and r: "second_pass_loop labels is ins1 = Inr ins'"
    by (auto split: sum.splits)
  show ?case
  proof (cases "i = i'")
    case True
    from link_labels_prev [OF a] Cons.prems(3) True
    obtain j where j: "labels l = Some j" "j < length ins \<longrightarrow> i \<in> set (ins_prev (ins1 ! j))"
      by blast
    with second_pass_loop_prev_mono [OF r, of j] show ?thesis by auto
  next
    case False
    with Cons.prems have "i \<in> set is" by simp
    moreover from Cons.prems(3) link_labels_kind [OF a, of i]
    have "l \<in> set (jump_labels (kind (ins1 ! i)))" by simp
    ultimately show ?thesis
      using Cons.IH [OF r] link_labels_length [OF a] by simp
  qed
qed

lemma last_label_idx_Some:
  assumes "last_label_idx ks l = Some j"
  shows "j < length ks \<and> ks ! j = Label l \<and> (\<forall>k. j < k \<and> k < length ks \<longrightarrow> ks ! k \<noteq> Label l)"
  using assms
proof (induction ks arbitrary: j rule: rev_induct)
  case Nil
  then show ?case by (simp add: last_label_idx_def)
next
  case (snoc k ks)
  show ?case
  proof (cases "k = Label l")
    case True
    with snoc.prems have "j = length ks" by (simp add: last_label_idx_snoc)
    with True show ?thesis by (auto simp: less_Suc_eq)
  next
    case False
    with snoc.prems have "last_label_idx ks l = Some j" by (simp add: last_label_idx_snoc)
    from snoc.IH [OF this] False show ?thesis
      by (auto simp: nth_append less_Suc_eq)
  qed
qed

lemma first_pass_loop_ok:
  assumes "\<forall>l\<in>set lines. is_comment l \<or> \<not> isl (pl l)"
  shows "\<exists>st'. first_pass_loop pl sel st lines = Inr st'"
  using assms
proof (induction lines arbitrary: st)
  case Nil
  then show ?case by simp
next
  case (Cons l lines)
  then have "is_comment l \<or> \<not> isl (pl l)" by simp
  from first_pass_step_ok [of l pl sel st, OF this] obtain st'
    where s: "first_pass_step pl sel st l = Inr st'" by blast
  from Cons.prems have "\<forall>l\<in>set lines. is_comment l \<or> \<not> isl (pl l)" by simp
  from Cons.IH [OF this, of st'] s show ?case by simp
qed

text \<open>
  Claim C10. When every line of the source is a comment or parses, the first pass succeeds,
  whether or not a label name is defined more than once, and its label map sends every name to
  the position of the last \<open>Label\<close> instruction with that name. When the second pass succeeds,
  every label \<open>l\<close> that a \<open>B\<close>, \<open>BZ\<close>, \<open>BNZ\<close>, \<open>Switch\<close> or \<open>Match\<close> instruction \<open>i\<close> jumps to
  is linked to that last definition \<open>j\<close>: \<open>j\<close> is a successor of \<open>i\<close> and \<open>i\<close> a predecessor of
  \<open>j\<close>, and the successors added to \<open>i\<close> are exactly the last definitions of its labels. The
  passes have no other output than the parse error of a malformed line.
\<close>

theorem duplicate_labels_last_wins:
  assumes "\<forall>line\<in>set lines. is_comment line \<or> \<not> isl (pl line)"
  shows "\<exists>st. first_pass pl sel lines = Inr st \<and>
           (\<forall>l. fp_labels st l = last_label_idx (map kind (fp_instructions st)) l) \<and>
           (\<forall>ins2 i l.
              second_pass (fp_instructions st) (fp_labels st) = Inr ins2 \<and> i < length ins2 \<and>
              l \<in> set (jump_labels (kind (ins2 ! i))) \<longrightarrow>
                (\<exists>j. last_label_idx (map kind (fp_instructions st)) l = Some j \<and>
                     j \<in> set (ins_next (ins2 ! i)) \<and> i \<in> set (ins_prev (ins2 ! j)) \<and>
                     ins_next (ins2 ! i) =
                       ins_next (fp_instructions st ! i) @
                         map (\<lambda>l. the (last_label_idx (map kind (fp_instructions st)) l))
                           (jump_labels (kind (ins2 ! i)))))"
proof -
  from first_pass_loop_ok [OF assms, of sel fp_init] obtain st
    where st: "first_pass pl sel lines = Inr st"
    by (auto simp: first_pass_def)
  let ?ins = "fp_instructions st"
  from first_pass_inv [OF st]
  have lab: "\<And>l. fp_labels st l = last_label_idx (map kind ?ins) l"
    by (simp add: fp_inv_def)
  have "\<exists>j. last_label_idx (map kind ?ins) l = Some j \<and>
             j \<in> set (ins_next (ins2 ! i)) \<and> i \<in> set (ins_prev (ins2 ! j)) \<and>
             ins_next (ins2 ! i) =
               ins_next (?ins ! i) @
                 map (\<lambda>l. the (last_label_idx (map kind ?ins) l)) (jump_labels (kind (ins2 ! i)))"
    if sp: "second_pass ?ins (fp_labels st) = Inr ins2" and i: "i < length ins2"
      and l: "l \<in> set (jump_labels (kind (ins2 ! i)))" for ins2 i l
  proof -
    from sp have loop: "second_pass_loop (fp_labels st) [0..<length ?ins] ?ins = Inr ins2"
      by (simp add: second_pass_def)
    from second_pass_loop_length [OF loop] i have il: "i < length ?ins" by simp
    have k: "kind (ins2 ! i) = kind (?ins ! i)"
      by (rule second_pass_loop_kind [OF loop])
    from second_pass_loop_next [OF loop, of i] il
    have n: "ins_next (ins2 ! i) =
               ins_next (?ins ! i) @ map (\<lambda>l. the (fp_labels st l)) (jump_labels (kind (?ins ! i)))"
      by simp
    from second_pass_loop_prev [OF loop, of i l] il l k
    obtain j where j: "fp_labels st l = Some j" "j < length ?ins \<longrightarrow> i \<in> set (ins_prev (ins2 ! j))"
      by auto
    from j(1) lab have jl: "last_label_idx (map kind ?ins) l = Some j" by simp
    from last_label_idx_Some [OF jl] have "j < length ?ins" by simp
    with j have p: "i \<in> set (ins_prev (ins2 ! j))" by simp
    from l k j(1) have "j \<in> set (map (\<lambda>l. the (fp_labels st l)) (jump_labels (kind (?ins ! i))))"
      by force
    with n have m: "j \<in> set (ins_next (ins2 ! i))" by simp
    have "(\<lambda>l. the (fp_labels st l)) = (\<lambda>l. the (last_label_idx (map kind ?ins) l))"
      using lab by simp
    with n k have "ins_next (ins2 ! i) =
               ins_next (?ins ! i) @
                 map (\<lambda>l. the (last_label_idx (map kind ?ins) l)) (jump_labels (kind (ins2 ! i)))"
      by simp
    with jl m p show ?thesis by blast
  qed
  with st lab show ?thesis by blast
qed

text \<open>The hypothesis of C10 on a program that defines the label \<open>s\<close> twice.\<close>

theorem duplicate_labels_last_wins_witness:
  "list_all (\<lambda>line. is_comment line \<or> \<not> isl (example_parse_line line)) example_duplicate_labels
   \<and> \<not> isl (first_pass example_parse_line example_selector example_duplicate_labels)
   \<and> map kind (fp_instructions (projr (first_pass example_parse_line example_selector
         example_duplicate_labels)))
       = [Label ''s'', Other ''int 1'', BZ ''s'', Label ''s'', B ''s'', Return]
   \<and> fp_labels (projr (first_pass example_parse_line example_selector example_duplicate_labels)) ''s''
       = Some 3
   \<and> \<not> isl (second_pass
         (fp_instructions (projr (first_pass example_parse_line example_selector
            example_duplicate_labels)))
         (fp_labels (projr (first_pass example_parse_line example_selector
            example_duplicate_labels))))
   \<and> 3 \<in> set (ins_next (projr (second_pass
         (fp_instructions (projr (first_pass example_parse_line example_selector
            example_duplicate_labels)))
         (fp_labels (projr (first_pass example_parse_line example_selector
            example_duplicate_labels)))) ! 4))
   \<and> 4 \<in> set (ins_prev (projr (second_pass
         (fp_instructions (projr (first_pass example_parse_line example_selector
            example_duplicate_labels)))
         (fp_labels (projr (first_pass example_parse_line example_selector
            example_duplicate_labels)))) ! 3))"
proof -
  let ?r = "first_pass example_parse_line example_selector example_duplicate_labels"
  let ?st = "projr ?r"
  let ?s = "second_pass (fp_instructions ?st) (fp_labels ?st)"
  let ?ins2 = "projr ?s"
  have a: "list_all (\<lambda>line. is_comment line \<or> \<not> isl (example_parse_line line))
             example_duplicate_labels"
    by code_simp
  then have a': "\<forall>line\<in>set example_duplicate_labels.
                   is_comment line \<or> \<not> isl (example_parse_line line)"
    unfolding list_all_iff .
  have k: "map kind (fp_instructions ?st)
             = [Label ''s'', Other ''int 1'', BZ ''s'', Label ''s'', B ''s'', Return]"
    by code_simp
  have s: "\<not> isl ?s" by code_simp
  then have es: "?s = Inr ?ins2" by simp
  have len: "length ?ins2 = 6" by code_simp
  have k4: "kind (?ins2 ! 4) = B ''s''" by code_simp
  have ll: "last_label_idx [Label ''s'', Other ''int 1'', BZ ''s'', Label ''s'', B ''s'', Return] ''s''
              = Some 3"
    by code_simp
  from duplicate_labels_last_wins [OF a', of example_selector]
  obtain st where st: "?r = Inr st"
    and lab: "\<And>l. fp_labels st l = last_label_idx (map kind (fp_instructions st)) l"
    and jmp: "\<And>ins2 i l. second_pass (fp_instructions st) (fp_labels st) = Inr ins2 \<Longrightarrow>
                i < length ins2 \<Longrightarrow> l \<in> set (jump_labels (kind (ins2 ! i))) \<Longrightarrow>
                (\<exists>j. last_label_idx (map kind (fp_instructions st)) l = Some j \<and>
                     j \<in> set (ins_next (ins2 ! i)) \<and> i \<in> set (ins_prev (ins2 ! j)))"
    by blast
  from st have pst: "?st = st" by simp
  from st have r: "\<not> isl ?r" by simp
  from lab [of "''s''"] have l3: "fp_labels ?st ''s'' = Some 3"
    unfolding pst [symmetric] k ll .
  have "''s'' \<in> set (jump_labels (kind (?ins2 ! 4)))"
    unfolding k4 by (simp add: jump_labels_def)
  from jmp [unfolded pst [symmetric], OF es _ this] len
  obtain j where "last_label_idx (map kind (fp_instructions ?st)) ''s'' = Some j"
    "j \<in> set (ins_next (?ins2 ! 4))" "4 \<in> set (ins_prev (?ins2 ! j))"
    by auto
  then have "3 \<in> set (ins_next (?ins2 ! 4))" "4 \<in> set (ins_prev (?ins2 ! 3))"
    unfolding k ll by simp_all
  with a r k l3 s show ?thesis by blast
qed

section \<open>The program returned by \<open>parse_teal\<close>\<close>

lemma same_blocks_refl [simp]: "same_blocks store store"
  by (simp add: same_blocks_def)

lemma same_blocks_trans:
  "same_blocks a b \<Longrightarrow> same_blocks b c \<Longrightarrow> same_blocks a c"
  by (simp add: same_blocks_def)

lemma same_blocks_set_subroutine: "same_blocks store (set_subroutine r b store)"
  by (simp add: same_blocks_def set_subroutine_def nth_list_update_total)

lemma same_blocks_fold_set_subroutine: "same_blocks store (fold (set_subroutine r) bs store)"
proof (induction bs arbitrary: store)
  case Nil
  then show ?case by simp
next
  case (Cons b bs)
  from same_blocks_trans [OF same_blocks_set_subroutine Cons.IH, of store r b] show ?case by simp
qed

lemma same_blocks_default_subroutine: "same_blocks store (default_subroutine b store)"
  by (simp add: default_subroutine_def same_blocks_set_subroutine)

lemma same_blocks_fold_default: "same_blocks store (fold default_subroutine bs store)"
proof (induction bs arbitrary: store)
  case Nil
  then show ?case by simp
next
  case (Cons b bs)
  from same_blocks_trans [OF same_blocks_default_subroutine Cons.IH, of store b] show ?case by simp
qed

lemma discover_subroutine_same:
  assumes "discover_subroutine labels c st = Inr st'"
  shows "same_blocks (ss_store st) (ss_store st')"
proof -
  obtain name callsubs where c: "c = (name, callsubs)" by (cases c)
  from assms obtain entry where
    s: "ss_store st' = fold (set_subroutine (SubroutineNamed name))
          (identify_subroutine_blocks
             ((ss_store st)[entry := (ss_store st ! entry)
                \<lparr>bb_tealer_comments := bb_tealer_comments (ss_store st ! entry) @ [''Subroutine '' @ name]\<rparr>])
             entry)
          ((ss_store st)[entry := (ss_store st ! entry)
                \<lparr>bb_tealer_comments := bb_tealer_comments (ss_store st ! entry) @ [''Subroutine '' @ name]\<rparr>])"
    unfolding c discover_subroutine_def
    by (auto simp: Let_def split: option.splits)
  have "same_blocks (ss_store st) ((ss_store st)[entry := (ss_store st ! entry)
                \<lparr>bb_tealer_comments := bb_tealer_comments (ss_store st ! entry) @ [''Subroutine '' @ name]\<rparr>])"
    by (simp add: same_blocks_def nth_list_update_total)
  from same_blocks_trans [OF this same_blocks_fold_set_subroutine] show ?thesis
    unfolding s .
qed

lemma discover_subroutines_same:
  "discover_subroutines labels cs st = Inr st' \<Longrightarrow> same_blocks (ss_store st) (ss_store st')"
proof (induction cs arbitrary: st)
  case Nil
  then show ?case by simp
next
  case (Cons c cs)
  then obtain st1 where a: "discover_subroutine labels c st = Inr st1"
    and r: "discover_subroutines labels cs st1 = Inr st'"
    by (auto split: sum.splits)
  from same_blocks_trans [OF discover_subroutine_same [OF a] Cons.IH [OF r]] show ?case .
qed

lemma set_called_line:
  "length (set_called name i ins) = length ins" "ins_line (set_called name i ins ! k) = ins_line (ins ! k)"
  by (simp_all add: set_called_def nth_list_update_total)

lemma fold_set_called_line:
  "length (fold (set_called name) cs ins) = length ins \<and>
   ins_line (fold (set_called name) cs ins ! k) = ins_line (ins ! k)"
  by (induction cs arbitrary: ins) (simp_all add: set_called_line)

lemma discover_subroutine_ins:
  assumes "discover_subroutine labels c st = Inr st'"
  shows "length (ss_instructions st') = length (ss_instructions st) \<and>
         ins_line (ss_instructions st' ! k) = ins_line (ss_instructions st ! k)"
proof -
  obtain name callsubs where c: "c = (name, callsubs)" by (cases c)
  from assms have "ss_instructions st' = fold (set_called name) callsubs (ss_instructions st)"
    unfolding c discover_subroutine_def
    by (auto simp: Let_def split: option.splits)
  then show ?thesis by (simp add: fold_set_called_line)
qed

lemma discover_subroutines_ins:
  "discover_subroutines labels cs st = Inr st' \<Longrightarrow>
     length (ss_instructions st') = length (ss_instructions st) \<and>
     ins_line (ss_instructions st' ! k) = ins_line (ss_instructions st ! k)"
proof (induction cs arbitrary: st)
  case Nil
  then show ?case by simp
next
  case (Cons c cs)
  then obtain st1 where a: "discover_subroutine labels c st = Inr st1"
    and r: "discover_subroutines labels cs st1 = Inr st'"
    by (auto split: sum.splits)
  from discover_subroutine_ins [OF a, of k] Cons.IH [OF r] show ?case by simp
qed

lemma parse_teal_stages:
  assumes "parse_teal pl sel lines = Inr r"
  obtains fp ins2 store4 store5 all_bbs where
    "first_pass pl sel lines = Inr fp"
    "second_pass (fp_instructions fp) (fp_labels fp) = Inr ins2"
    "fourth_pass (cb_instructions (create_bb ins2)) (cb_all_bbs (create_bb ins2)) = Inr store4"
    "add_basic_blocks_idx (cb_instructions (create_bb ins2)) store4 [0..<length store4]
       = Inr (store5, all_bbs)"
    "build_teal fp (cb_instructions (create_bb ins2)) store5 all_bbs = Inr r"
  using assms unfolding parse_teal_def unhandled_def Let_def
  by (auto split: sum.splits prod.splits)

lemma build_teal_stages:
  assumes "build_teal fp ins store all_bbs = Inr (t, printed)"
  obtains ins0 rest ss bb0 bbs where
    "ins = ins0 # rest" "all_bbs = bb0 # bbs"
    "discover_subroutines (fp_labels fp) (fp_subroutines fp)
       \<lparr>ss_instructions = ins, ss_store = store, ss_subroutines = []\<rparr> = Inr ss"
    "t_instructions t = ss_instructions ss"
    "t_bbs t = all_bbs"
    "t_subroutines t = ss_subroutines ss"
    "t_main t = \<lparr>sub_name = ''__main__'', sub_entry = bb0,
                  sub_blocks = identify_subroutine_blocks (ss_store ss) bb0, sub_caller_blocks = []\<rparr>"
    "t_block_store t = fold default_subroutine all_bbs
        (fold (set_subroutine MainProgram) (identify_subroutine_blocks (ss_store ss) bb0) (ss_store ss))"
  using assms unfolding build_teal_def unhandled_def Let_def
  by (auto split: sum.splits list.splits)

lemma set_idx_frame:
  "length (set_idx p store) = length store"
  "bb_instructions (set_idx p store ! k) = bb_instructions (store ! k)"
  "bb_next (set_idx p store ! k) = bb_next (store ! k)"
  "bb_subroutine (set_idx p store ! k) = bb_subroutine (store ! k)"
  by (cases p; simp add: set_idx_def nth_list_update_total)+

lemma fold_set_idx_frame:
  "length (fold set_idx ps store) = length store \<and>
   bb_instructions (fold set_idx ps store ! k) = bb_instructions (store ! k) \<and>
   bb_next (fold set_idx ps store ! k) = bb_next (store ! k) \<and>
   bb_subroutine (fold set_idx ps store ! k) = bb_subroutine (store ! k)"
  by (induction ps arbitrary: store) (simp_all add: set_idx_frame)

lemma fold_set_idx_other:
  "b \<notin> snd ` set ps \<Longrightarrow> bb_idx (fold set_idx ps store ! b) = bb_idx (store ! b)"
proof (induction ps arbitrary: store)
  case Nil
  then show ?case by simp
next
  case (Cons p ps)
  obtain i c where p: "p = (i, c)" by (cases p)
  with Cons.prems have "c \<noteq> b" "b \<notin> snd ` set ps" by auto
  with Cons.IH [of "set_idx p store"] show ?case
    by (simp add: p set_idx_def nth_list_update_total)
qed

lemma fold_set_idx_enumerate:
  assumes "distinct bs" "\<forall>b\<in>set bs. b < length store" "i < length bs"
  shows "bb_idx (fold set_idx (enumerate k bs) store ! (bs ! i)) = Some (k + i)"
  using assms
proof (induction bs arbitrary: k store i)
  case Nil
  then show ?case by simp
next
  case (Cons b bs)
  show ?case
  proof (cases i)
    case 0
    from Cons.prems(1) have "b \<notin> snd ` set (enumerate (Suc k) bs)"
      by (auto simp: in_set_enumerate_eq)
    from fold_set_idx_other [OF this, of "set_idx (k, b) store"] Cons.prems(2) 0
    show ?thesis by (simp add: set_idx_def)
  next
    case (Suc j)
    with Cons.prems have "distinct bs" "\<forall>c\<in>set bs. c < length (set_idx (k, b) store)" "j < length bs"
      by (simp_all add: set_idx_frame)
    from Cons.IH [OF this, of "Suc k"] Suc show ?thesis by simp
  qed
qed

lemma add_basic_blocks_idx_props:
  assumes "add_basic_blocks_idx ins store [0..<length store] = Inr (store', bbs)"
  shows "length store' = length store"
    and "bb_instructions (store' ! k) = bb_instructions (store ! k)"
    and "bb_next (store' ! k) = bb_next (store ! k)"
    and "bb_subroutine (store' ! k) = bb_subroutine (store ! k)"
    and "sorted (map (entry_line ins store) bbs)"
    and "distinct bbs" and "set bbs = {..<length store}"
    and "\<forall>i<length bbs. bb_idx (store' ! (bbs ! i)) = Some i"
proof -
  from assms have b: "bbs = sort_key (entry_line ins store) [0..<length store]"
    and s: "store' = fold set_idx (enumerate 0 bbs) store"
    by (auto simp: add_basic_blocks_idx_def Let_def split: if_splits)
  show "length store' = length store" "bb_instructions (store' ! k) = bb_instructions (store ! k)"
    "bb_next (store' ! k) = bb_next (store ! k)"
    "bb_subroutine (store' ! k) = bb_subroutine (store ! k)"
    unfolding s using fold_set_idx_frame [of "enumerate 0 bbs" store k] by simp_all
  show "sorted (map (entry_line ins store) bbs)" unfolding b by simp
  show d: "distinct bbs" unfolding b by simp
  show m: "set bbs = {..<length store}" unfolding b by auto
  then have "\<forall>b\<in>set bbs. b < length store" by simp
  with d show "\<forall>i<length bbs. bb_idx (store' ! (bbs ! i)) = Some i"
    unfolding s using fold_set_idx_enumerate [of bbs store _ 0] by simp
qed

text \<open>
  Claim C5. In the program that \<open>parse_teal\<close> returns, the list of basic blocks is sorted by
  the line number of each block's entry instruction, the block at position \<open>i\<close> of the list has
  index \<open>i\<close>, and the list holds every block of the program once, so the indices are
  \<open>0, 1, \<dots>, n - 1\<close>.
\<close>

theorem block_indices_sorted:
  assumes "parse_teal pl sel lines = Inr (t, printed)"
  shows "sorted (map (entry_line (t_instructions t) (t_block_store t)) (t_bbs t))
       \<and> (\<forall>i<length (t_bbs t). bb_idx (t_block_store t ! (t_bbs t ! i)) = Some i)
       \<and> distinct (t_bbs t) \<and> set (t_bbs t) = {..<length (t_block_store t)}"
proof -
  from assms obtain fp ins2 store4 store5 all_bbs where
    idx: "add_basic_blocks_idx (cb_instructions (create_bb ins2)) store4 [0..<length store4]
            = Inr (store5, all_bbs)"
    and bt: "build_teal fp (cb_instructions (create_bb ins2)) store5 all_bbs = Inr (t, printed)"
    by (rule parse_teal_stages)
  let ?ins = "cb_instructions (create_bb ins2)"
  from bt obtain ss bb0 where
    ds: "discover_subroutines (fp_labels fp) (fp_subroutines fp)
           \<lparr>ss_instructions = ?ins, ss_store = store5, ss_subroutines = []\<rparr> = Inr ss"
    and ti: "t_instructions t = ss_instructions ss"
    and tb: "t_bbs t = all_bbs"
    and ts: "t_block_store t = fold default_subroutine all_bbs
        (fold (set_subroutine MainProgram) (identify_subroutine_blocks (ss_store ss) bb0) (ss_store ss))"
    by (rule build_teal_stages)
  from discover_subroutines_same [OF ds] have "same_blocks store5 (ss_store ss)" by simp
  from same_blocks_trans [OF same_blocks_trans [OF this same_blocks_fold_set_subroutine]
      same_blocks_fold_default]
  have sb: "same_blocks store5 (t_block_store t)" unfolding ts .
  from discover_subroutines_ins [OF ds]
  have li: "\<And>k. ins_line (t_instructions t ! k) = ins_line (?ins ! k)"
    unfolding ti by simp
  have "entry_line (t_instructions t) (t_block_store t) b = entry_line ?ins store4 b" for b
    using sb li add_basic_blocks_idx_props(2) [OF idx, of b]
    by (simp add: entry_line_def same_blocks_def)
  then have e: "entry_line (t_instructions t) (t_block_store t) = entry_line ?ins store4"
    by (rule ext)
  from sb have len: "length (t_block_store t) = length store5"
    and ix: "\<And>b. bb_idx (t_block_store t ! b) = bb_idx (store5 ! b)"
    by (simp_all add: same_blocks_def)
  from add_basic_blocks_idx_props(1,5,6,7,8) [OF idx] show ?thesis
    unfolding e tb ix len by simp
qed

text \<open>The hypothesis of C5 on the example program, which has three blocks.\<close>

theorem block_indices_sorted_witness:
  "\<not> isl (parse_teal example_parse_line example_selector example_program)
   \<and> length (t_bbs (fst (projr (parse_teal example_parse_line example_selector example_program)))) = 3
   \<and> sorted (map (entry_line
         (t_instructions (fst (projr (parse_teal example_parse_line example_selector example_program))))
         (t_block_store (fst (projr (parse_teal example_parse_line example_selector example_program)))))
         (t_bbs (fst (projr (parse_teal example_parse_line example_selector example_program)))))
   \<and> bb_idx (t_block_store (fst (projr (parse_teal example_parse_line example_selector example_program)))
        ! (t_bbs (fst (projr (parse_teal example_parse_line example_selector example_program))) ! 2))
       = Some 2"
proof -
  let ?r = "parse_teal example_parse_line example_selector example_program"
  have r: "\<not> isl ?r" by code_simp
  then have e: "?r = Inr (fst (projr ?r), snd (projr ?r))" by simp
  have len: "length (t_bbs (fst (projr ?r))) = 3" by code_simp
  from block_indices_sorted [OF e] r len show ?thesis by simp
qed

section \<open>Sources without instructions\<close>

lemma first_pass_loop_no_ins:
  assumes "\<forall>l\<in>set lines. is_comment l \<or> pl l = Inr None"
  shows "\<exists>st'. first_pass_loop pl sel st lines = Inr st' \<and>
               fp_instructions st' = fp_instructions st \<and> fp_labels st' = fp_labels st \<and>
               fp_subroutines st' = fp_subroutines st"
  using assms
proof (induction lines arbitrary: st)
  case Nil
  then show ?case by simp
next
  case (Cons l lines)
  then have "is_comment l \<or> pl l = Inr None" by simp
  then have "\<exists>st1. first_pass_step pl sel st l = Inr st1 \<and>
    fp_instructions st1 = fp_instructions st \<and> fp_labels st1 = fp_labels st \<and>
    fp_subroutines st1 = fp_subroutines st"
    by (cases "is_comment l") (simp_all add: first_pass_step_def)
  then obtain st1 where s: "first_pass_step pl sel st l = Inr st1"
    "fp_instructions st1 = fp_instructions st" "fp_labels st1 = fp_labels st"
    "fp_subroutines st1 = fp_subroutines st"
    by blast
  from Cons.prems have "\<forall>l\<in>set lines. is_comment l \<or> pl l = Inr None" by simp
  from Cons.IH [OF this, of st1] s show ?case by simp
qed

lemma first_pass_loop_lines_ok:
  "first_pass_loop pl sel st lines = Inr st' \<Longrightarrow> \<forall>l\<in>set lines. is_comment l \<or> \<not> isl (pl l)"
proof (induction lines arbitrary: st)
  case Nil
  then show ?case by simp
next
  case (Cons l lines)
  then obtain st1 where a: "first_pass_step pl sel st l = Inr st1"
    and r: "first_pass_loop pl sel st1 lines = Inr st'"
    by (auto split: sum.splits)
  from a have "is_comment l \<or> \<not> isl (pl l)"
    by (auto simp: first_pass_step_def split: if_splits sum.splits line_error.splits)
  with Cons.IH [OF r] show ?case by simp
qed

lemma new_block_instructions [simp]:
  "cb_instructions (new_block e st) = cb_instructions st"
  by (simp add: new_block_def Let_def)

lemma create_bb_step_length:
  "length (cb_instructions (create_bb_step i st)) = length (cb_instructions st)"
  by (simp add: create_bb_step_def Let_def)

lemma fold_create_bb_step_length:
  "length (cb_instructions (fold create_bb_step is st)) = length (cb_instructions st)"
  by (induction "is" arbitrary: st) (simp_all add: create_bb_step_length)

lemma create_bb_length: "length (cb_instructions (create_bb ins)) = length ins"
  by (simp add: create_bb_def fold_create_bb_step_length)

lemma parse_teal_no_ins:
  assumes "\<forall>l\<in>set lines. is_comment l \<or> pl l = Inr None"
  shows "parse_teal pl sel lines = Inl (Unhandled IndexError)"
proof -
  from first_pass_loop_no_ins [OF assms, of sel fp_init] obtain st
    where st: "first_pass pl sel lines = Inr st" "fp_instructions st = []"
    by (auto simp: first_pass_def fp_init_def)
  have sp: "second_pass [] (fp_labels st) = Inr []"
    by (simp add: second_pass_def)
  have cb: "create_bb [] = \<lparr>cb_instructions = [], cb_all_bbs = [BasicBlock], cb_bb = 0\<rparr>"
    by (simp add: create_bb_def)
  have "fourth_pass [] [BasicBlock] = Inl IndexError"
    by (simp add: fourth_pass_def exit_instr_def BasicBlock_def)
  with st sp cb show ?thesis
    by (simp add: parse_teal_def unhandled_def)
qed

text \<open>
  Claim C9. On a source in which every line is a comment or yields no instruction (the empty
  source among them), \<open>parse_teal\<close> neither returns a program nor reports a parse error: it
  stops with an \<open>IndexError\<close> that nothing handles. Whenever it returns a program, the program
  has at least one instruction, parsed from a line of the source.
\<close>

theorem parse_teal_needs_instruction:
  "((\<forall>l\<in>set lines. is_comment l \<or> pl l = Inr None) \<longrightarrow>
      parse_teal pl sel lines = Inl (Unhandled IndexError))
   \<and> (parse_teal pl sel lines = Inr (t, printed) \<longrightarrow>
        t_instructions t \<noteq> [] \<and> (\<exists>l\<in>set lines. \<not> is_comment l \<and> (\<exists>p. pl l = Inr (Some p))))"
proof (intro conjI impI)
  assume "\<forall>l\<in>set lines. is_comment l \<or> pl l = Inr None"
  then show "parse_teal pl sel lines = Inl (Unhandled IndexError)"
    by (rule parse_teal_no_ins)
next
  assume ok: "parse_teal pl sel lines = Inr (t, printed)"
  then obtain fp ins2 store5 all_bbs where
    fp: "first_pass pl sel lines = Inr fp"
    and sp: "second_pass (fp_instructions fp) (fp_labels fp) = Inr ins2"
    and bt: "build_teal fp (cb_instructions (create_bb ins2)) store5 all_bbs = Inr (t, printed)"
    by (rule parse_teal_stages)
  let ?ins = "cb_instructions (create_bb ins2)"
  from bt obtain ss ins0 rest where
    ne: "?ins = ins0 # rest"
    and ds: "discover_subroutines (fp_labels fp) (fp_subroutines fp)
           \<lparr>ss_instructions = ?ins, ss_store = store5, ss_subroutines = []\<rparr> = Inr ss"
    and ti: "t_instructions t = ss_instructions ss"
    by (rule build_teal_stages)
  from discover_subroutines_ins [OF ds] ne have "length (t_instructions t) = Suc (length rest)"
    unfolding ti by simp
  then show "t_instructions t \<noteq> []" by auto
  from fp have "\<forall>l\<in>set lines. is_comment l \<or> \<not> isl (pl l)"
    unfolding first_pass_def by (rule first_pass_loop_lines_ok)
  moreover have "\<not> (\<forall>l\<in>set lines. is_comment l \<or> pl l = Inr None)"
    using parse_teal_no_ins [of lines pl sel] ok by auto
  ultimately obtain l where l: "l \<in> set lines" "\<not> is_comment l" "\<not> isl (pl l)" "pl l \<noteq> Inr None"
    by blast
  then obtain p where "pl l = Inr (Some p)"
    by (cases "pl l") auto
  with l show "\<exists>l\<in>set lines. \<not> is_comment l \<and> (\<exists>p. pl l = Inr (Some p))" by blast
qed

text \<open>
  The hypotheses of C9 on a source of blank and comment lines, on the empty source and on the
  example program.
\<close>

theorem parse_teal_needs_instruction_witness:
  "list_all (\<lambda>l. is_comment l \<or> example_parse_line l = Inr None) ['''', ''// only a comment'', ''   '']
   \<and> parse_teal example_parse_line example_selector ['''', ''// only a comment'', ''   '']
       = Inl (Unhandled IndexError)
   \<and> parse_teal example_parse_line example_selector [] = Inl (Unhandled IndexError)
   \<and> \<not> isl (parse_teal example_parse_line example_selector example_program)
   \<and> t_instructions (fst (projr (parse_teal example_parse_line example_selector example_program))) \<noteq> []"
proof -
  let ?r = "parse_teal example_parse_line example_selector example_program"
  have a: "list_all (\<lambda>l. is_comment l \<or> example_parse_line l = Inr None)
             ['''', ''// only a comment'', ''   '']"
    by code_simp
  then have a': "\<forall>l\<in>set ['''', ''// only a comment'', ''   ''].
                   is_comment l \<or> example_parse_line l = Inr None"
    unfolding list_all_iff .
  have r: "\<not> isl ?r" by code_simp
  then have e: "?r = Inr (fst (projr ?r), snd (projr ?r))" by simp
  from parse_teal_needs_instruction [of "['''', ''// only a comment'', ''   '']" example_parse_line
      example_selector] a'
  have 1: "parse_teal example_parse_line example_selector ['''', ''// only a comment'', ''   '']
             = Inl (Unhandled IndexError)"
    by blast
  from parse_teal_needs_instruction [of "[]" example_parse_line example_selector]
  have 2: "parse_teal example_parse_line example_selector [] = Inl (Unhandled IndexError)"
    by simp
  from parse_teal_needs_instruction [of example_program example_parse_line example_selector
      "fst (projr ?r)" "snd (projr ?r)"] e
  have 3: "t_instructions (fst (projr ?r)) \<noteq> []"
    by blast
  from a 1 2 r 3 show ?thesis by blast
qed

section \<open>Subroutine discovery\<close>

lemma block_edges_iff: "(a, b) \<in> block_edges store \<longleftrightarrow> b \<in> set (successors store a)"
  by (simp add: block_edges_def successors_def)

lemma push_unseen_stack: "set st \<subseteq> set (push_unseen vis st ns)"
proof (induction ns arbitrary: st)
  case Nil
  then show ?case by simp
next
  case (Cons n ns)
  from Cons.IH [of "if n \<notin> set vis \<and> n \<notin> set st then n # st else st"]
  show ?case by (auto split: if_splits)
qed

lemma push_unseen_subset: "set (push_unseen vis st ns) \<subseteq> set st \<union> set ns"
proof (induction ns arbitrary: st)
  case Nil
  then show ?case by simp
next
  case (Cons n ns)
  from Cons.IH [of "if n \<notin> set vis \<and> n \<notin> set st then n # st else st"]
  show ?case by (auto split: if_splits)
qed

lemma push_unseen_covers: "set ns \<subseteq> set vis \<union> set (push_unseen vis st ns)"
proof (induction ns arbitrary: st)
  case Nil
  then show ?case by simp
next
  case (Cons n ns)
  have "n \<in> set vis \<union> set (if n \<notin> set vis \<and> n \<notin> set st then n # st else st)"
    by simp
  with push_unseen_stack [of "if n \<notin> set vis \<and> n \<notin> set st then n # st else st" vis ns]
    Cons.IH [of "if n \<notin> set vis \<and> n \<notin> set st then n # st else st"]
  show ?case by auto
qed

lemma dfs_includes: "set vis \<union> set st \<subseteq> set (dfs store vis st)"
proof (induction store vis st rule: dfs.induct)
  case (1 store vis)
  then show ?case by simp
next
  case (2 store vis bb stack)
  with push_unseen_stack [of stack "vis @ [bb]" "successors store bb"]
  show ?case by auto
qed

lemma dfs_closed:
  "x \<in> set (dfs store vis st) \<Longrightarrow> x \<notin> set vis \<Longrightarrow>
     set (successors store x) \<subseteq> set (dfs store vis st)"
proof (induction store vis st rule: dfs.induct)
  case (1 store vis)
  then show ?case by simp
next
  case (2 store vis bb stack)
  let ?st = "push_unseen (vis @ [bb]) stack (successors store bb)"
  show ?case
  proof (cases "x = bb")
    case True
    from push_unseen_covers [of "successors store bb" "vis @ [bb]" stack]
      dfs_includes [of "vis @ [bb]" ?st store] True
    show ?thesis by auto
  next
    case False
    with "2.prems" have "x \<in> set (dfs store (vis @ [bb]) ?st)" "x \<notin> set (vis @ [bb])"
      by simp_all
    from "2.IH" [OF this] show ?thesis by simp
  qed
qed

lemma dfs_sound:
  "set (dfs store vis st) \<subseteq> set vis \<union> (\<Union>s\<in>set st. reachable_blocks store s)"
proof (induction store vis st rule: dfs.induct)
  case (1 store vis)
  then show ?case by simp
next
  case (2 store vis bb stack)
  let ?st = "push_unseen (vis @ [bb]) stack (successors store bb)"
  have b: "bb \<in> reachable_blocks store bb"
    by (simp add: reachable_blocks_def)
  have s: "reachable_blocks store n \<subseteq> reachable_blocks store bb" if "n \<in> set (successors store bb)" for n
  proof
    fix y assume "y \<in> reachable_blocks store n"
    then have "(n, y) \<in> (block_edges store)\<^sup>*" by (simp add: reachable_blocks_def)
    moreover from that have "(bb, n) \<in> block_edges store" by (simp add: block_edges_iff)
    ultimately have "(bb, y) \<in> (block_edges store)\<^sup>*" by (rule converse_rtrancl_into_rtrancl [rotated])
    then show "y \<in> reachable_blocks store bb" by (simp add: reachable_blocks_def)
  qed
  have "(\<Union>s\<in>set ?st. reachable_blocks store s) \<subseteq> (\<Union>s\<in>set (bb # stack). reachable_blocks store s)"
  proof
    fix y assume "y \<in> (\<Union>s\<in>set ?st. reachable_blocks store s)"
    then obtain n where n: "n \<in> set ?st" "y \<in> reachable_blocks store n" by blast
    from n(1) push_unseen_subset [of "vis @ [bb]" stack "successors store bb"]
    have "n \<in> set stack \<or> n \<in> set (successors store bb)" by blast
    with n(2) s show "y \<in> (\<Union>s\<in>set (bb # stack). reachable_blocks store s)" by auto
  qed
  with "2.IH" b show ?case by auto
qed

lemma identify_subroutine_blocks_reachable:
  "set (identify_subroutine_blocks store entry) = reachable_blocks store entry"
proof
  show "set (identify_subroutine_blocks store entry) \<subseteq> reachable_blocks store entry"
    using dfs_sound [of store "[]" "[entry]"] by (simp add: identify_subroutine_blocks_def)
next
  let ?R = "set (dfs store [] [entry])"
  have c: "b \<in> ?R" if "(entry, b) \<in> (block_edges store)\<^sup>*" for b
    using that
  proof (induction rule: rtrancl_induct)
    case base
    from dfs_includes [of "[]" "[entry]" store] show ?case by simp
  next
    case (step y z)
    from dfs_closed [OF step.IH] step.hyps(2) show ?case
      by (auto simp: block_edges_iff)
  qed
  then show "reachable_blocks store entry \<subseteq> set (identify_subroutine_blocks store entry)"
    by (auto simp: reachable_blocks_def identify_subroutine_blocks_def)
qed

lemma same_blocks_reachable:
  assumes "same_blocks store store'"
  shows "reachable_blocks store' = reachable_blocks store"
proof -
  from assms have "successors store' = successors store"
    by (auto simp: same_blocks_def successors_def fun_eq_iff)
  then have "block_edges store' = block_edges store"
    by (auto simp: block_edges_iff)
  then show ?thesis by (simp add: reachable_blocks_def fun_eq_iff)
qed

lemma unowned_bb_add_next: "unowned store \<Longrightarrow> unowned (bb_add_next store a b)"
  by (simp add: unowned_def bb_add_next_def nth_list_update_total)

lemma unowned_bb_add_prev: "unowned store \<Longrightarrow> unowned (bb_add_prev store a b)"
  by (simp add: unowned_def bb_add_prev_def nth_list_update_total)

lemma unowned_snoc: "unowned store \<Longrightarrow> unowned (store @ [BasicBlock])"
  by (auto simp: unowned_def BasicBlock_def nth_append less_Suc_eq)

lemma unowned_new_block:
  "unowned (cb_all_bbs st) \<Longrightarrow> unowned (cb_all_bbs (new_block e st))"
  by (simp add: new_block_def Let_def unowned_snoc unowned_bb_add_next unowned_bb_add_prev)

lemma unowned_add_instruction:
  "unowned store \<Longrightarrow>
     unowned (store[b := (store ! b)\<lparr>bb_instructions := bb_instructions (store ! b) @ [i]\<rparr>])"
  by (simp add: unowned_def nth_list_update_total)

lemma unowned_create_bb_step:
  assumes "unowned (cb_all_bbs st)"
  shows "unowned (cb_all_bbs (create_bb_step i st))"
proof -
  define st1 where "st1 = (if is_Label (kind (cb_instructions st ! i))
                              \<and> bb_instructions (cb_all_bbs st ! cb_bb st) \<noteq> []
                           then new_block True st else st)"
  define st2 where "st2 = st1\<lparr>cb_all_bbs :=
                       (cb_all_bbs st1)[cb_bb st1 := (cb_all_bbs st1 ! cb_bb st1)
                          \<lparr>bb_instructions := bb_instructions (cb_all_bbs st1 ! cb_bb st1) @ [i]\<rparr>],
                     cb_instructions := (cb_instructions st1)
                         [i := (cb_instructions st ! i)\<lparr>ins_bb := Some (cb_bb st1)\<rparr>]\<rparr>"
  from assms have "unowned (cb_all_bbs st1)"
    by (simp add: st1_def unowned_new_block)
  then have u: "unowned (cb_all_bbs st2)"
    by (simp add: st2_def unowned_add_instruction)
  have "create_bb_step i st = st2 \<or> create_bb_step i st = new_block True st2
        \<or> create_bb_step i st = new_block False st2
        \<or> create_bb_step i st = new_block False (new_block True st2)"
    unfolding create_bb_step_def Let_def st2_def st1_def by simp
  with u unowned_new_block [of st2] unowned_new_block [of "new_block True st2" False]
  show ?thesis by auto
qed

lemma unowned_fold_create_bb_step:
  "unowned (cb_all_bbs st) \<Longrightarrow> unowned (cb_all_bbs (fold create_bb_step is st))"
  by (induction "is" arbitrary: st) (simp_all add: unowned_create_bb_step)

lemma unowned_create_bb: "unowned (cb_all_bbs (create_bb ins))"
proof -
  have "unowned [BasicBlock]"
    by (simp add: unowned_def BasicBlock_def)
  then show ?thesis
    by (simp add: create_bb_def unowned_fold_create_bb_step)
qed

lemma unowned_fourth_pass_edges:
  "fourth_pass_edges ins b ns store = Inr store' \<Longrightarrow> unowned store \<Longrightarrow> unowned store'"
proof (induction ns arbitrary: store)
  case Nil
  then show ?case by simp
next
  case (Cons n ns)
  then show ?case
    by (auto split: option.splits if_splits intro: unowned_bb_add_next unowned_bb_add_prev)
qed

lemma unowned_fourth_pass_loop:
  "fourth_pass_loop ins bs store = Inr store' \<Longrightarrow> unowned store \<Longrightarrow> unowned store'"
proof (induction bs arbitrary: store)
  case Nil
  then show ?case by simp
next
  case (Cons b bs)
  then show ?case
    by (auto split: sum.splits dest: unowned_fourth_pass_edges)
qed

lemma unowned_fourth_pass:
  "fourth_pass ins store = Inr store' \<Longrightarrow> unowned store \<Longrightarrow> unowned store'"
  unfolding fourth_pass_def by (rule unowned_fourth_pass_loop)

lemma unowned_add_basic_blocks_idx:
  assumes "add_basic_blocks_idx ins store [0..<length store] = Inr (store', bbs)" "unowned store"
  shows "unowned store'"
  using add_basic_blocks_idx_props(1,4) [OF assms(1)] assms(2)
  by (simp add: unowned_def)

lemma set_subroutine_nth:
  "length (set_subroutine r b store) = length store"
  "bb_subroutine (set_subroutine r b store ! k) =
     (if k = b \<and> b < length store then Some r else bb_subroutine (store ! k))"
  by (simp_all add: set_subroutine_def nth_list_update_total)

lemma fold_set_subroutine_other:
  "b \<notin> set bs \<Longrightarrow> bb_subroutine (fold (set_subroutine r) bs store ! b) = bb_subroutine (store ! b)"
  by (induction bs arbitrary: store) (simp_all add: set_subroutine_nth)

lemma fold_set_subroutine_length:
  "length (fold (set_subroutine r) bs store) = length store"
  by (induction bs arbitrary: store) (simp_all add: set_subroutine_nth)

lemma fold_set_subroutine_in:
  "b \<in> set bs \<Longrightarrow> b < length store \<Longrightarrow>
     bb_subroutine (fold (set_subroutine r) bs store ! b) = Some r"
proof (induction bs arbitrary: store)
  case Nil
  then show ?case by simp
next
  case (Cons c bs)
  show ?case
  proof (cases "b \<in> set bs")
    case True
    from Cons.IH [OF True, of "set_subroutine r c store"] Cons.prems(2) show ?thesis
      by (simp add: set_subroutine_nth)
  next
    case False
    with Cons.prems have "c = b" by simp
    with fold_set_subroutine_other [OF False, of r "set_subroutine r b store"] Cons.prems(2)
    show ?thesis by (simp add: set_subroutine_nth)
  qed
qed

lemma default_subroutine_nth:
  "length (default_subroutine b store) = length store"
  "bb_subroutine (default_subroutine b store ! k) =
     (if k = b \<and> k < length store \<and> bb_subroutine (store ! k) = None then Some MainProgram
      else bb_subroutine (store ! k))"
  by (auto simp: default_subroutine_def set_subroutine_nth)

lemma fold_default_subroutine:
  "bb_subroutine (fold default_subroutine bs store ! k) =
     (if k \<in> set bs \<and> k < length store \<and> bb_subroutine (store ! k) = None then Some MainProgram
      else bb_subroutine (store ! k))"
proof (induction bs arbitrary: store)
  case Nil
  then show ?case by simp
next
  case (Cons b bs)
  show ?case
    using Cons.IH [of "default_subroutine b store"] unfolding default_subroutine_nth by auto
qed

lemma discover_subroutine_result:
  assumes "discover_subroutine labels (name, callsubs) st = Inr st'"
  obtains entry store1 where
    "store1 = (ss_store st)[entry := (ss_store st ! entry)
        \<lparr>bb_tealer_comments := bb_tealer_comments (ss_store st ! entry) @ [''Subroutine '' @ name]\<rparr>]"
    "ss_store st' = fold (set_subroutine (SubroutineNamed name))
                       (identify_subroutine_blocks store1 entry) store1"
    "ss_subroutines st' = ss_subroutines st @
        [(name, \<lparr>sub_name = name, sub_entry = entry,
                  sub_blocks = identify_subroutine_blocks store1 entry,
                  sub_caller_blocks = map (\<lambda>i. ins_bb (ss_instructions st ! i)) callsubs\<rparr>)]"
  using assms unfolding discover_subroutine_def
  by (auto simp: Let_def split: option.splits)

lemma discover_subroutine_inv:
  assumes d: "discover_subroutine labels c st = Inr st'" and inv: "subroutines_inv store0 st"
  shows "subroutines_inv store0 st'"
proof -
  obtain name callsubs where c: "c = (name, callsubs)" by (cases c)
  from d [unfolded c] obtain entry store1 where
    s1: "store1 = (ss_store st)[entry := (ss_store st ! entry)
        \<lparr>bb_tealer_comments := bb_tealer_comments (ss_store st ! entry) @ [''Subroutine '' @ name]\<rparr>]"
    and st: "ss_store st' = fold (set_subroutine (SubroutineNamed name))
                       (identify_subroutine_blocks store1 entry) store1"
    and su: "ss_subroutines st' = ss_subroutines st @
        [(name, \<lparr>sub_name = name, sub_entry = entry,
                  sub_blocks = identify_subroutine_blocks store1 entry,
                  sub_caller_blocks = map (\<lambda>i. ins_bb (ss_instructions st ! i)) callsubs\<rparr>)]"
    by (rule discover_subroutine_result)
  from inv have sb: "same_blocks store0 (ss_store st)"
    and old: "\<forall>(n, s)\<in>set (ss_subroutines st). set (sub_blocks s) = reachable_blocks store0 (sub_entry s)"
    and none: "\<And>b. b < length store0 \<Longrightarrow> (\<forall>(n, s)\<in>set (ss_subroutines st). b \<notin> set (sub_blocks s))
                  \<Longrightarrow> bb_subroutine (ss_store st ! b) = None"
    by (simp_all add: subroutines_inv_def)
  have "same_blocks (ss_store st) store1"
    by (simp add: s1 same_blocks_def nth_list_update_total)
  with sb have sb1: "same_blocks store0 store1" by (rule same_blocks_trans)
  have sub1: "bb_subroutine (store1 ! b) = bb_subroutine (ss_store st ! b)" for b
    by (simp add: s1 nth_list_update_total)
  from same_blocks_trans [OF sb discover_subroutine_same [OF d]]
  have 1: "same_blocks store0 (ss_store st')" .
  have "set (identify_subroutine_blocks store1 entry) = reachable_blocks store0 entry"
    using identify_subroutine_blocks_reachable [of store1 entry] same_blocks_reachable [OF sb1]
    by simp
  with old have 2: "\<forall>(n, s)\<in>set (ss_subroutines st'). set (sub_blocks s) = reachable_blocks store0 (sub_entry s)"
    unfolding su by auto
  have 3: "bb_subroutine (ss_store st' ! b) = None"
    if "b < length store0" "\<forall>(n, s)\<in>set (ss_subroutines st'). b \<notin> set (sub_blocks s)" for b
  proof -
    from that(2) have a: "\<forall>(n, s)\<in>set (ss_subroutines st). b \<notin> set (sub_blocks s)"
      and b: "b \<notin> set (identify_subroutine_blocks store1 entry)"
      unfolding su by auto
    from fold_set_subroutine_other [OF b, of "SubroutineNamed name" store1] none [OF that(1) a]
    show ?thesis unfolding st sub1 by simp
  qed
  from 1 2 3 show ?thesis
    unfolding subroutines_inv_def by blast
qed

lemma discover_subroutines_inv:
  "discover_subroutines labels cs st = Inr st' \<Longrightarrow> subroutines_inv store0 st
     \<Longrightarrow> subroutines_inv store0 st'"
proof (induction cs arbitrary: st)
  case Nil
  then show ?case by simp
next
  case (Cons c cs)
  then obtain st1 where a: "discover_subroutine labels c st = Inr st1"
    and r: "discover_subroutines labels cs st1 = Inr st'"
    by (auto split: sum.splits)
  from Cons.IH [OF r discover_subroutine_inv [OF a Cons.prems(2)]] show ?case .
qed

text \<open>
  Claim C4. In the program that \<open>parse_teal\<close> returns, the blocks recorded for every
  subroutine are exactly the blocks reachable from its entry block along successor edges,
  whatever the instructions of the blocks on the way are; the blocks recorded for \<open>__main__\<close>
  are those reachable from the first block of the list. A block that is in the walk of no
  subroutine found from a \<open>callsub\<close> belongs to \<open>__main__\<close>, whether or not the walk from the
  first block reaches it, and every block of the program has a subroutine.
\<close>

theorem subroutine_blocks_reachable:
  assumes "parse_teal pl sel lines = Inr (t, printed)"
  shows "(\<forall>(n, s)\<in>set (t_subroutines t).
            set (sub_blocks s) = reachable_blocks (t_block_store t) (sub_entry s))
       \<and> sub_entry (t_main t) = hd (t_bbs t)
       \<and> set (sub_blocks (t_main t)) = reachable_blocks (t_block_store t) (hd (t_bbs t))
       \<and> (\<forall>b\<in>set (t_bbs t). (\<forall>(n, s)\<in>set (t_subroutines t). b \<notin> set (sub_blocks s)) \<longrightarrow>
            bb_subroutine (t_block_store t ! b) = Some MainProgram)
       \<and> (\<forall>b\<in>set (t_bbs t). b \<in> set (sub_blocks (t_main t)) \<longrightarrow>
            bb_subroutine (t_block_store t ! b) = Some MainProgram)
       \<and> set (t_bbs t) = {..<length (t_block_store t)}
       \<and> (\<forall>b\<in>set (t_bbs t). bb_subroutine (t_block_store t ! b) \<noteq> None)"
proof -
  from assms obtain fp ins2 store4 store5 all_bbs where
    fo: "fourth_pass (cb_instructions (create_bb ins2)) (cb_all_bbs (create_bb ins2)) = Inr store4"
    and idx: "add_basic_blocks_idx (cb_instructions (create_bb ins2)) store4 [0..<length store4]
            = Inr (store5, all_bbs)"
    and bt: "build_teal fp (cb_instructions (create_bb ins2)) store5 all_bbs = Inr (t, printed)"
    by (rule parse_teal_stages)
  let ?ins = "cb_instructions (create_bb ins2)"
  from bt obtain ss bb0 bbs where
    ab: "all_bbs = bb0 # bbs"
    and ds: "discover_subroutines (fp_labels fp) (fp_subroutines fp)
           \<lparr>ss_instructions = ?ins, ss_store = store5, ss_subroutines = []\<rparr> = Inr ss"
    and tb: "t_bbs t = all_bbs"
    and tsub: "t_subroutines t = ss_subroutines ss"
    and tm: "t_main t = \<lparr>sub_name = ''__main__'', sub_entry = bb0,
                  sub_blocks = identify_subroutine_blocks (ss_store ss) bb0, sub_caller_blocks = []\<rparr>"
    and ts: "t_block_store t = fold default_subroutine all_bbs
        (fold (set_subroutine MainProgram) (identify_subroutine_blocks (ss_store ss) bb0) (ss_store ss))"
    by (rule build_teal_stages)
  let ?main = "identify_subroutine_blocks (ss_store ss) bb0"
  let ?store6 = "fold (set_subroutine MainProgram) ?main (ss_store ss)"
  have u5: "unowned store5"
    using unowned_add_basic_blocks_idx [OF idx unowned_fourth_pass [OF fo unowned_create_bb]] .
  then have "subroutines_inv store5 \<lparr>ss_instructions = ?ins, ss_store = store5, ss_subroutines = []\<rparr>"
    by (simp add: subroutines_inv_def unowned_def)
  from discover_subroutines_inv [OF ds this]
  have sbs: "same_blocks store5 (ss_store ss)"
    and walks: "\<forall>(n, s)\<in>set (ss_subroutines ss). set (sub_blocks s) = reachable_blocks store5 (sub_entry s)"
    and none: "\<And>b. b < length store5 \<Longrightarrow> (\<forall>(n, s)\<in>set (ss_subroutines ss). b \<notin> set (sub_blocks s))
                  \<Longrightarrow> bb_subroutine (ss_store ss ! b) = None"
    by (simp_all add: subroutines_inv_def)
  from same_blocks_trans [OF same_blocks_trans [OF sbs same_blocks_fold_set_subroutine]
      same_blocks_fold_default]
  have sbt: "same_blocks store5 (t_block_store t)" unfolding ts .
  note rt = same_blocks_reachable [OF sbt]
  from sbs sbt have len: "length (ss_store ss) = length store5" "length (t_block_store t) = length store5"
    by (simp_all add: same_blocks_def)
  from add_basic_blocks_idx_props(1,7) [OF idx]
  have all: "set all_bbs = {..<length store5}" by simp
  have l6: "length ?store6 = length store5"
    by (simp add: fold_set_subroutine_length len)
  have fin: "bb_subroutine (t_block_store t ! b) =
               (if bb_subroutine (?store6 ! b) = None then Some MainProgram
                else bb_subroutine (?store6 ! b))" if "b \<in> set all_bbs" for b
    unfolding ts fold_default_subroutine l6 using that all by auto
  have 1: "\<forall>(n, s)\<in>set (t_subroutines t).
            set (sub_blocks s) = reachable_blocks (t_block_store t) (sub_entry s)"
    unfolding tsub rt using walks .
  have 2: "sub_entry (t_main t) = hd (t_bbs t)"
    by (simp add: tm tb ab)
  have 3: "set (sub_blocks (t_main t)) = reachable_blocks (t_block_store t) (hd (t_bbs t))"
    unfolding rt using identify_subroutine_blocks_reachable [of "ss_store ss" bb0]
      same_blocks_reachable [OF sbs]
    by (simp add: tm tb ab)
  have 4: "bb_subroutine (t_block_store t ! b) = Some MainProgram"
    if b: "b \<in> set (t_bbs t)" and n: "\<forall>(n, s)\<in>set (t_subroutines t). b \<notin> set (sub_blocks s)" for b
  proof -
    from b all have bl: "b < length store5" by (simp add: tb)
    from none [OF bl n [unfolded tsub]] have z: "bb_subroutine (ss_store ss ! b) = None" .
    have "bb_subroutine (?store6 ! b) = None \<or> bb_subroutine (?store6 ! b) = Some MainProgram"
    proof (cases "b \<in> set ?main")
      case True
      from fold_set_subroutine_in [OF True, of "ss_store ss" MainProgram] bl len
      show ?thesis by simp
    next
      case False
      from fold_set_subroutine_other [OF False, of MainProgram "ss_store ss"] z
      show ?thesis by simp
    qed
    with fin [of b] b show ?thesis by (auto simp: tb)
  qed
  have 5: "bb_subroutine (t_block_store t ! b) = Some MainProgram"
    if b: "b \<in> set (t_bbs t)" and m: "b \<in> set (sub_blocks (t_main t))" for b
  proof -
    from b all have bl: "b < length store5" by (simp add: tb)
    from m have "b \<in> set ?main" by (simp add: tm)
    from fold_set_subroutine_in [OF this, of "ss_store ss" MainProgram] bl len
    have "bb_subroutine (?store6 ! b) = Some MainProgram" by simp
    with fin [of b] b show ?thesis by (simp add: tb)
  qed
  have 6: "set (t_bbs t) = {..<length (t_block_store t)}"
    by (simp add: tb all len)
  have 7: "bb_subroutine (t_block_store t ! b) \<noteq> None" if "b \<in> set (t_bbs t)" for b
    using fin [of b] that by (simp add: tb)
  from 1 2 3 4 5 6 7 show ?thesis by blast
qed

text \<open>
  The hypotheses of C4 on a program whose subroutine \<open>s\<close> spans three blocks joined by
  default and jump edges, and whose third block follows a \<open>return\<close> and is reached by no walk.
\<close>

theorem subroutine_blocks_reachable_witness:
  "\<not> isl (parse_teal example_parse_line example_selector example_subroutine)
   \<and> map fst (t_subroutines (fst (projr (parse_teal example_parse_line example_selector
        example_subroutine)))) = [''s'']
   \<and> t_bbs (fst (projr (parse_teal example_parse_line example_selector example_subroutine)))
       = [0, 1, 2, 3, 4, 5]
   \<and> map bb_next (t_block_store (fst (projr (parse_teal example_parse_line example_selector
        example_subroutine)))) = [[1], [], [], [4, 5], [5], []]
   \<and> sub_entry (snd (hd (t_subroutines (fst (projr (parse_teal example_parse_line
        example_selector example_subroutine)))))) = 3
   \<and> sub_blocks (snd (hd (t_subroutines (fst (projr (parse_teal example_parse_line
        example_selector example_subroutine)))))) = [3, 5, 4]
   \<and> reachable_blocks
         (t_block_store (fst (projr (parse_teal example_parse_line example_selector
            example_subroutine)))) 3 = {3, 4, 5}
   \<and> sub_blocks (t_main (fst (projr (parse_teal example_parse_line example_selector
        example_subroutine)))) = [0, 1]
   \<and> reachable_blocks
         (t_block_store (fst (projr (parse_teal example_parse_line example_selector
            example_subroutine)))) 0 = {0, 1}
   \<and> list_all (\<lambda>(n, s). 2 \<notin> set (sub_blocks s))
        (t_subroutines (fst (projr (parse_teal example_parse_line example_selector
           example_subroutine))))
   \<and> bb_subroutine (t_block_store (fst (projr (parse_teal example_parse_line example_selector
        example_subroutine))) ! 2) = Some MainProgram
   \<and> bb_subroutine (t_block_store (fst (projr (parse_teal example_parse_line example_selector
        example_subroutine))) ! 4) \<noteq> None"
proof -
  define r where "r = parse_teal example_parse_line example_selector example_subroutine"
  define t where "t = fst (projr r)"
  define s where "s = snd (hd (t_subroutines t))"
  have r: "\<not> isl r" unfolding r_def by code_simp
  then have e: "parse_teal example_parse_line example_selector example_subroutine
                  = Inr (t, snd (projr r))"
    unfolding t_def r_def by simp
  have n: "map fst (t_subroutines t) = [''s'']" unfolding t_def r_def by code_simp
  have b: "t_bbs t = [0, 1, 2, 3, 4, 5]" unfolding t_def r_def by code_simp
  have x: "map bb_next (t_block_store t) = [[1], [], [], [4, 5], [5], []]"
    unfolding t_def r_def by code_simp
  have se: "sub_entry s = 3" unfolding s_def t_def r_def by code_simp
  have sb: "sub_blocks s = [3, 5, 4]" unfolding s_def t_def r_def by code_simp
  have mb: "sub_blocks (t_main t) = [0, 1]" unfolding t_def r_def by code_simp
  have l: "list_all (\<lambda>(n, s). 2 \<notin> set (sub_blocks s)) (t_subroutines t)"
    unfolding t_def r_def by code_simp
  then have l': "\<forall>(n, s)\<in>set (t_subroutines t). 2 \<notin> set (sub_blocks s)"
    unfolding list_all_iff .
  from n have "t_subroutines t \<noteq> []" by auto
  then have "hd (t_subroutines t) \<in> set (t_subroutines t)" by simp
  then have h: "(fst (hd (t_subroutines t)), s) \<in> set (t_subroutines t)"
    unfolding s_def by simp
  note th = subroutine_blocks_reachable [OF e]
  note A = th [THEN conjunct1]
  note C = th [THEN conjunct2, THEN conjunct2, THEN conjunct1]
  note D = th [THEN conjunct2, THEN conjunct2, THEN conjunct2, THEN conjunct1]
  note G = th [THEN conjunct2, THEN conjunct2, THEN conjunct2, THEN conjunct2, THEN conjunct2,
      THEN conjunct2]
  from bspec [OF A h] have "set (sub_blocks s) = reachable_blocks (t_block_store t) (sub_entry s)"
    by (simp only: prod.case)
  then have 1: "reachable_blocks (t_block_store t) 3 = {3, 4, 5}"
    unfolding se sb by (simp add: insert_commute)
  have hb: "hd (t_bbs t) = 0" unfolding b by simp
  from C have 2: "reachable_blocks (t_block_store t) 0 = {0, 1}"
    unfolding mb hb by simp
  have m2: "2 \<in> set (t_bbs t)" and m4: "4 \<in> set (t_bbs t)" unfolding b by simp_all
  from D [THEN bspec, OF m2] l' have 3: "bb_subroutine (t_block_store t ! 2) = Some MainProgram"
    by (rule mp)
  from G [THEN bspec, OF m4] have 4: "bb_subroutine (t_block_store t ! 4) \<noteq> None" .
  from r n b x se sb 1 mb 2 l 3 4 show ?thesis
    unfolding s_def t_def r_def by (intro conjI)
qed


end
